theory Spec2Isabelle
  imports Complex_Main "HOL-Library.Sublist"
begin

section \<open>Call session orchestration: a model of \<open>app/views/call.js\<close>\<close>

subsection \<open>PeerLink: \<open>ForstaRTCPeerConnection\<close>\<close>

text \<open>
  The ICE connection state is reported by the browser's \<open>RTCPeerConnection\<close>.
  The record keeps the fields that \<open>isConnected\<close> and \<open>isStale\<close> read: the state and
  the two entries of \<open>_meta\<close> written by \<open>addPeer\<close> (\<open>added\<close>) and by the
  \<open>iceconnectionstatechange\<close> listener of \<open>bindPeer\<close> (\<open>connected\<close>).
  An entry that was never set reads \<open>undefined\<close> in the source and \<open>None\<close> here.
  Timestamps are values of \<open>Date.now()\<close>, in milliseconds.
\<close>

datatype iceState = New | Checking | Connected | Completed | Disconnected | Failed | Closed

record peerLink =
  iceConnectionState :: iceState
  meta_connected :: "int option"
  meta_added :: "int option"

definition isConnected :: "peerLink \<Rightarrow> bool" where
  "isConnected p =
     (let iceState = iceConnectionState p
      in iceState = Connected \<or> iceState = Completed)"

text \<open>
  \<open>lastConnected ? a : b\<close> tests the truthiness of a number or \<open>undefined\<close>:
  \<open>undefined\<close> and \<open>0\<close> are falsy. A difference with \<open>undefined\<close> is \<open>NaN\<close>, and
  \<open>NaN > 30000\<close> is false.
\<close>

definition truthy_time :: "int option \<Rightarrow> bool" where
  "truthy_time t = (case t of None \<Rightarrow> False | Some v \<Rightarrow> v \<noteq> 0)"

definition elapsed_over :: "int \<Rightarrow> int option \<Rightarrow> int \<Rightarrow> bool" where
  "elapsed_over now t limit = (case t of None \<Rightarrow> False | Some v \<Rightarrow> now - v > limit)"

definition isStale :: "int \<Rightarrow> peerLink \<Rightarrow> bool" where
  "isStale now p =
     (if isConnected p then False
      else let lastConnected = meta_connected p
           in if truthy_time lastConnected then elapsed_over now lastConnected 30000
              else elapsed_over now (meta_added p) 30000)"

text \<open>The constructor leaves both timestamps unset; \<open>addPeer\<close> stamps \<open>added\<close>.\<close>

definition new_peer :: peerLink where
  "new_peer = \<lparr>iceConnectionState = New, meta_connected = None, meta_added = None\<rparr>"

definition addPeer_meta :: "int \<Rightarrow> peerLink \<Rightarrow> peerLink" where
  "addPeer_meta now p = p\<lparr>meta_added := Some now\<rparr>"

text \<open>
  An ICE state change at time \<open>now\<close>: the browser sets the state, and the listener
  installed by \<open>bindPeer\<close> (when \<open>bound\<close>) stamps \<open>connected\<close> if the new state counts
  as connected.
\<close>

definition iceconnectionstatechange :: "int \<Rightarrow> iceState \<Rightarrow> bool \<Rightarrow> peerLink \<Rightarrow> peerLink" where
  "iceconnectionstatechange now st bound p =
     (let p' = p\<lparr>iceConnectionState := st\<rparr>
      in if bound \<and> isConnected p' then p'\<lparr>meta_connected := Some now\<rparr> else p')"

fun ice_events :: "(int \<times> iceState \<times> bool) list \<Rightarrow> peerLink \<Rightarrow> peerLink" where
  "ice_events [] p = p"
| "ice_events ((t, st, bound) # evs) p = ice_events evs (iceconnectionstatechange t st bound p)"

text \<open>
  The stale branch of \<open>peerCheck\<close>: nothing is scheduled while an action is pending
  (\<open>_peerActionTimeout\<close>) or when there is no peer; otherwise one removal is scheduled
  for every peer that \<open>isStale\<close>.
\<close>

definition peerCheck_stale :: "bool \<Rightarrow> int \<Rightarrow> peerLink list \<Rightarrow> peerLink list" where
  "peerCheck_stale peerActionTimeout now peers =
     (if peerActionTimeout then []
      else if length peers = 0 then []
      else filter (isStale now) peers)"

text \<open>The specification's reading: the later of \<open>connected-at\<close> (if set) and \<open>added-at\<close>.\<close>

definition later_stamp :: "peerLink \<Rightarrow> int option" where
  "later_stamp p =
     (case meta_added p of
        None \<Rightarrow> None
      | Some a \<Rightarrow> (case meta_connected p of None \<Rightarrow> Some a | Some c \<Rightarrow> Some (max c a)))"

text \<open>
  A link as the member view builds it: created, added at \<open>t0\<close>, then a run of ICE state
  changes whose clock readings are positive and do not go backwards.
\<close>

fun clock_ok :: "int \<Rightarrow> (int \<times> iceState \<times> bool) list \<Rightarrow> bool" where
  "clock_ok t [] = True"
| "clock_ok t ((t', st, bound) # evs) = (t \<le> t' \<and> clock_ok t' evs)"

definition link_history :: "int \<Rightarrow> (int \<times> iceState \<times> bool) list \<Rightarrow> peerLink" where
  "link_history t0 evs = ice_events evs (addPeer_meta t0 new_peer)"

text \<open>A history in which the link never reached a connected state.\<close>

definition never_connected :: "(int \<times> iceState \<times> bool) list \<Rightarrow> bool" where
  "never_connected evs = list_all (\<lambda>(t, st, bound). st \<noteq> Connected \<and> st \<noteq> Completed) evs"

subsection \<open>MemberConnection: \<open>F.CallMemberView\<close>, its peers and its rendered stream\<close>

text \<open>
  Peer connections, streams, tracks and sound meters are objects compared by identity
  (\<open>===\<close>); each is named by a number. \<open>_peers\<close> is a \<open>Map\<close> from peer id to peer
  object, kept as an association list in insertion order. The fields of the peer objects
  that the removal path touches (\<open>_viewListeners\<close>, the receivers' tracks and the ICE
  state) are stored per peer object. What the removal path does to the outside world is
  appended to \<open>effects\<close>, in program order.
\<close>

datatype effect =
    LogPeerAlreadyRemoved nat
  | TriggerStreaming bool
  | TriggerAudioOnly bool
  | SoundMeterDisconnect nat
  | TriggerStreamUpdate "nat option"
  | RemoveEventListeners nat
  | TrackStop nat
  | PeerClose nat

record memberView =
  outgoing :: bool
  peers :: "(string \<times> nat) list"
  streamingPeer :: "nat option"
  stream :: "nat option"
  cls_streaming :: bool
  cls_audioOnly :: bool
  soundMeter :: "nat option"
  soundRMS :: rat
  soundDBV :: rat
  streamChanged :: int
  videoEl :: "nat option option"
  viewListeners :: "nat \<Rightarrow> bool"
  receivers :: "nat \<Rightarrow> nat list"
  links :: "nat \<Rightarrow> peerLink"
  effects :: "effect list"

definition emit :: "effect \<Rightarrow> memberView \<Rightarrow> memberView" where
  "emit e m = m\<lparr>effects := effects m @ [e]\<rparr>"

definition getPeers :: "memberView \<Rightarrow> nat list" where
  "getPeers m = map snd (peers m)"

definition setStreaming :: "bool \<Rightarrow> memberView \<Rightarrow> memberView" where
  "setStreaming streaming m = emit (TriggerStreaming streaming) (m\<lparr>cls_streaming := streaming\<rparr>)"

definition setAudioOnly :: "bool \<Rightarrow> memberView \<Rightarrow> memberView" where
  "setAudioOnly audioOnly m = emit (TriggerAudioOnly audioOnly) (m\<lparr>cls_audioOnly := audioOnly\<rparr>)"

text \<open>\<open>videoEl\<close> is \<open>None\<close> before the view is rendered, else \<open>Some srcObject\<close>.\<close>

definition removeStream :: "int \<Rightarrow> memberView \<Rightarrow> memberView" where
  "removeStream now m =
     (let m1 = m\<lparr>streamingPeer := None\<rparr>;
          m2 = (if cls_streaming m1 then setStreaming False m1 else m1);
          m3 = (if cls_audioOnly m2 then setAudioOnly False m2 else m2);
          m4 = (case soundMeter m3 of
                  Some sm \<Rightarrow> (emit (SoundMeterDisconnect sm) m3)
                               \<lparr>soundMeter := None, soundRMS := - 1, soundDBV := - 100\<rparr>
                | None \<Rightarrow> m3);
          m5 = (if stream m4 \<noteq> None then m4\<lparr>streamChanged := now, stream := None\<rparr> else m4);
          m6 = (case videoEl m5 of Some src \<Rightarrow> m5\<lparr>videoEl := Some None\<rparr> | None \<Rightarrow> m5)
      in emit (TriggerStreamUpdate None) m6)"

definition unbindPeer :: "nat \<Rightarrow> memberView \<Rightarrow> memberView" where
  "unbindPeer peer m =
     (if \<not> viewListeners m peer then m
      else (emit (RemoveEventListeners peer) m)\<lparr>viewListeners := (viewListeners m)(peer := False)\<rparr>)"

text \<open>\<open>peer.close()\<close> is the browser's: the connection's ICE state becomes \<open>closed\<close>.\<close>

definition peer_close :: "nat \<Rightarrow> memberView \<Rightarrow> memberView" where
  "peer_close peer m =
     (emit (PeerClose peer) m)\<lparr>links := (links m)(peer := (links m peer)\<lparr>iceConnectionState := Closed\<rparr>)\<rparr>"

definition removePeer :: "int \<Rightarrow> nat \<Rightarrow> memberView \<Rightarrow> memberView" where
  "removePeer now peer m =
     (case find (\<lambda>(key, val). val = peer) (peers m) of
        None \<Rightarrow> emit (LogPeerAlreadyRemoved peer) m
      | Some entry \<Rightarrow>
          (let m1 = (if streamingPeer m = Some peer then removeStream now m else m);
               m2 = unbindPeer peer m1;
               id = fst entry;
               m3 = m2\<lparr>peers := filter (\<lambda>(key, val). key \<noteq> id) (peers m2)\<rparr>;
               m4 = fold (\<lambda>x. emit (TrackStop x)) (receivers m3 peer) m3
           in peer_close peer m4))"

text \<open>
  The three callers of \<open>removePeer\<close>: the callbacks that \<open>peerCheck\<close> schedules for a
  stale link and for a redundant link, and \<open>remove\<close>, which walks a snapshot of the peers.
\<close>

definition stale_action :: "int \<Rightarrow> nat \<Rightarrow> memberView \<Rightarrow> memberView" where
  "stale_action now peer m = (if \<not> isConnected (links m peer) then removePeer now peer m else m)"

definition redundant_action :: "int \<Rightarrow> nat \<Rightarrow> memberView \<Rightarrow> memberView" where
  "redundant_action now peer m = (if Some peer \<noteq> streamingPeer m then removePeer now peer m else m)"

definition member_remove :: "int \<Rightarrow> memberView \<Rightarrow> memberView" where
  "member_remove now m = (if \<not> outgoing m then fold (removePeer now) (getPeers m) m else m)"

text \<open>What an operation appended to the effects, and a reading of that trace.\<close>

definition new_effects :: "memberView \<Rightarrow> memberView \<Rightarrow> effect list" where
  "new_effects m m' = drop (length (effects m)) (effects m')"

fun cleared_before_close :: "nat \<Rightarrow> effect list \<Rightarrow> bool" where
  "cleared_before_close q [] = False"
| "cleared_before_close q (e # es) =
     (if e = TriggerStreamUpdate None then PeerClose q \<in> set es
      else if e = PeerClose q then False
      else cleared_before_close q es)"

text \<open>A \<open>Map\<close> holds each key once; \<open>addPeer\<close> registers each new connection under its own id.\<close>

definition wf_peers :: "memberView \<Rightarrow> bool" where
  "wf_peers m = (distinct (map fst (peers m)) \<and> distinct (map snd (peers m)))"

text \<open>A member with two links, the second one streaming.\<close>

definition member_two_links :: memberView where
  "member_two_links =
     \<lparr>outgoing = False, peers = [(''a'', 1), (''b'', 2)], streamingPeer = Some 2, stream = Some 7,
      cls_streaming = True, cls_audioOnly = False, soundMeter = Some 3, soundRMS = 0, soundDBV = 0,
      streamChanged = 0, videoEl = Some (Some 7), viewListeners = (\<lambda>p. True),
      receivers = (\<lambda>p. [10 * p, 10 * p + 1]),
      links = (\<lambda>p. \<lparr>iceConnectionState = Disconnected, meta_connected = None, meta_added = Some 1\<rparr>),
      effects = []\<rparr>"

subsection \<open>CallSession: \<open>F.CallView.join\<close>\<close>

text \<open>
  The fields of the call view that \<open>join\<close> and \<open>setJoined\<close> touch. \<open>outStream\<close> is
  \<open>None\<close> while the property is \<open>undefined\<close> (before \<open>setup\<close>) or \<open>null\<close> (after
  \<open>_cleanup\<close>), else the stream's tracks, each a numbered object whose kind and ended flag
  are kept in \<open>trackKind\<close> and \<open>trackEnded\<close>. Calls that leave the view go to \<open>cv_log\<close>
  in program order.
\<close>

datatype cv_effect =
    WarnAlreadyJoining
  | StreamRemoveTrack nat
  | StopTrack nat
  | OutViewUpdateStream
  | SendJoin "string option"
  | UpdateIncoming

datatype js_error = TypeError | SendRejected | NoTransceivers

datatype join_state = Returned | Awaiting | Threw js_error

record callView =
  joining :: bool
  joinType :: "string option"
  cls_audio_only :: bool
  cls_joined :: bool
  joinedAt :: "int option"
  leftAt :: "int option"
  outStream :: "nat list option"
  trackKind :: "nat \<Rightarrow> string"
  trackEnded :: "nat \<Rightarrow> bool"
  incoming :: "string list"
  incomingTypes :: "string list"
  clearIncomingTimeout :: bool
  cv_log :: "cv_effect list"

definition cv_emit :: "cv_effect \<Rightarrow> callView \<Rightarrow> callView" where
  "cv_emit e s = s\<lparr>cv_log := cv_log s @ [e]\<rparr>"

definition clearIncoming :: "callView \<Rightarrow> callView" where
  "clearIncoming s =
     cv_emit UpdateIncoming (s\<lparr>incoming := [], incomingTypes := [], clearIncomingTimeout := False\<rparr>)"

definition setJoined :: "bool \<Rightarrow> int \<Rightarrow> callView \<Rightarrow> callView" where
  "setJoined joined now s =
     (let s1 = (if joined
                then s\<lparr>joinedAt := (if truthy_time (joinedAt s) then joinedAt s else Some now)\<rparr>
                else s\<lparr>leftAt := (if truthy_time (leftAt s) then leftAt s else Some now)\<rparr>)
      in (clearIncoming s1)\<lparr>cls_joined := joined\<rparr>)"

definition getVideoTracks :: "callView \<Rightarrow> nat list \<Rightarrow> nat list" where
  "getVideoTracks s tracks = filter (\<lambda>t. trackKind s t = ''video'') tracks"

text \<open>One turn of the loop over the video tracks: \<open>removeTrack(t); t.stop()\<close>.\<close>

definition strip_track :: "nat \<Rightarrow> callView \<Rightarrow> callView" where
  "strip_track t s =
     (let s1 = cv_emit (StreamRemoveTrack t) (s\<lparr>outStream := map_option (removeAll t) (outStream s)\<rparr>)
      in cv_emit (StopTrack t) (s1\<lparr>trackEnded := (trackEnded s1)(t := True)\<rparr>))"

text \<open>
  \<open>join\<close> up to its only suspension point, the \<open>await\<close> of \<open>manager.sendJoin\<close>. The
  option \<open>type\<close> is \<open>None\<close> when absent. Reading the tracks of a missing stream throws
  before the \<open>try\<close> block is entered.
\<close>

definition join_begin :: "string option \<Rightarrow> callView \<Rightarrow> callView \<times> join_state" where
  "join_begin type s =
     (if joining s then (cv_emit WarnAlreadyJoining s, Returned)
      else
        let s1 = s\<lparr>joining := True,
                   joinType := (if type = None \<or> type = Some [] then Some ''video'' else type)\<rparr>
        in if type = Some ''audio'' then
             (let s2 = s1\<lparr>cls_audio_only := True\<rparr>
              in case outStream s2 of
                   None \<Rightarrow> (s2, Threw TypeError)
                 | Some tracks \<Rightarrow>
                     (let s3 = fold strip_track (getVideoTracks s2 tracks) s2;
                          s4 = cv_emit OutViewUpdateStream s3
                      in (cv_emit (SendJoin type) s4, Awaiting)))
           else (cv_emit (SendJoin type) s1, Awaiting))"

text \<open>
  The rest of \<open>join\<close>, run when the send settles: \<open>setJoined(true)\<close> if it resolved, and
  the \<open>finally\<close> block either way; a rejection is rethrown.
\<close>

definition join_resume :: "bool \<Rightarrow> int \<Rightarrow> callView \<Rightarrow> callView \<times> js_error option" where
  "join_resume sent now s =
     (if sent then ((setJoined True now s)\<lparr>joining := False\<rparr>, None)
      else (s\<lparr>joining := False\<rparr>, Some SendRejected))"

definition join :: "string option \<Rightarrow> bool \<Rightarrow> int \<Rightarrow> callView \<Rightarrow> callView \<times> js_error option" where
  "join type sent now s =
     (case join_begin type s of
        (s', Returned) \<Rightarrow> (s', None)
      | (s', Threw e) \<Rightarrow> (s', Some e)
      | (s', Awaiting) \<Rightarrow> join_resume sent now s')"

text \<open>A call view with a microphone track and two camera tracks, not joined.\<close>

definition view_three_tracks :: callView where
  "view_three_tracks =
     \<lparr>joining = False, joinType = None, cls_audio_only = False, cls_joined = False,
      joinedAt = None, leftAt = None, outStream = Some [1, 2, 3],
      trackKind = (\<lambda>t. if t = 1 then ''audio'' else ''video''), trackEnded = (\<lambda>t. False),
      incoming = [''u.1''], incomingTypes = [''video''], clearIncomingTimeout = True,
      cv_log = []\<rparr>"

text \<open>
  A call view before \<open>setup\<close> has bound the outgoing stream, with an audio call coming in:
  \<open>outStream\<close> is still \<open>undefined\<close>.
\<close>

definition view_unbound :: callView where
  "view_unbound =
     \<lparr>joining = False, joinType = None, cls_audio_only = False, cls_joined = False,
      joinedAt = None, leftAt = None, outStream = None,
      trackKind = (\<lambda>t. ''audio''), trackEnded = (\<lambda>t. False),
      incoming = [''u.1''], incomingTypes = [''audio''], clearIncomingTimeout = True,
      cv_log = []\<rparr>"

subsection \<open>CallSession: \<open>replaceMembersOutTrack\<close>\<close>

text \<open>
  A transceiver as the loop reads it: \<open>receiverTrackKind\<close> is the value of
  \<open>t.receiver && t.receiver.track && t.receiver.track.kind\<close>, \<open>None\<close> when the chain
  stops short. A member view is the list of its peers, a peer the list of its transceivers.
  The new track is its object number and its kind. \<open>sender.replaceTrack\<close> is the
  browser's and is taken to resolve.
\<close>

datatype direction = SendRecv | SendOnly | RecvOnly | Inactive

record transceiver =
  stopped :: bool
  receiverTrackKind :: "string option"
  direction :: direction
  senderTrack :: "nat option"

definition matching :: "nat \<times> string \<Rightarrow> transceiver \<Rightarrow> bool" where
  "matching track t = (\<not> stopped t \<and> receiverTrackKind t = Some (snd track))"

definition replaceTrack :: "nat \<times> string \<Rightarrow> transceiver \<Rightarrow> transceiver" where
  "replaceTrack track t = t\<lparr>direction := SendRecv, senderTrack := Some (fst track)\<rparr>"

text \<open>The innermost loop: the updated transceivers and the flag \<open>replaced\<close>.\<close>

fun replace_transceivers :: "nat \<times> string \<Rightarrow> transceiver list \<Rightarrow> bool \<Rightarrow> transceiver list \<times> bool" where
  "replace_transceivers track [] replaced = ([], replaced)"
| "replace_transceivers track (t # ts) replaced =
     (if matching track t
      then (let (ts', r) = replace_transceivers track ts True in (replaceTrack track t # ts', r))
      else (let (ts', r) = replace_transceivers track ts replaced in (t # ts', r)))"

text \<open>The loop over the peers of one view; the \<open>throw\<close> leaves the later peers untouched.\<close>

fun replace_peers :: "nat \<times> string \<Rightarrow> transceiver list list \<Rightarrow> transceiver list list \<times> js_error option" where
  "replace_peers track [] = ([], None)"
| "replace_peers track (peer # ps) =
     (let (peer', replaced) = replace_transceivers track peer False
      in if \<not> replaced then (peer' # ps, Some NoTransceivers)
         else (let (ps', e) = replace_peers track ps in (peer' # ps', e)))"

fun replaceMembersOutTrack ::
  "nat \<times> string \<Rightarrow> transceiver list list list \<Rightarrow> transceiver list list list \<times> js_error option" where
  "replaceMembersOutTrack track [] = ([], None)"
| "replaceMembersOutTrack track (view # vs) =
     (case replace_peers track view of
        (view', Some e) \<Rightarrow> (view' # vs, Some e)
      | (view', None) \<Rightarrow> (let (vs', e) = replaceMembersOutTrack track vs in (view' # vs', e)))"

text \<open>All transceivers of all peers of all members that match the new track.\<close>

definition matching_transceivers :: "nat \<times> string \<Rightarrow> transceiver list list list \<Rightarrow> transceiver list" where
  "matching_transceivers track views = filter (matching track) (concat (concat views))"

definition recv_video :: transceiver where
  "recv_video = \<lparr>stopped = False, receiverTrackKind = Some ''video'', direction = RecvOnly, senderTrack = None\<rparr>"

definition recv_audio :: transceiver where
  "recv_audio = \<lparr>stopped = False, receiverTrackKind = Some ''audio'', direction = SendRecv, senderTrack = Some 4\<rparr>"

subsection \<open>PresenterSelector: \<open>getMostPresentableMemberView\<close>\<close>











subsection \<open>BandwidthShaper: \<open>limitSDPBandwidth\<close>\<close>

text \<open>
  Strings are lists of characters. \<open>startsWith\<close> is the method of the same name, and
  \<open>split_on\<close> is \<open>String.prototype.split\<close> with a one-character separator, which always
  yields at least one piece.
\<close>

definition startsWith :: "string \<Rightarrow> string \<Rightarrow> bool" where
  "startsWith line p = (take (length p) line = p)"

definition prepend :: "char \<Rightarrow> string list \<Rightarrow> string list" where
  "prepend c ps = (case ps of [] \<Rightarrow> [[c]] | p # ps' \<Rightarrow> (c # p) # ps')"

fun split_on :: "char \<Rightarrow> string \<Rightarrow> string list" where
  "split_on sep [] = [[]]"
| "split_on sep (c # cs) = (if c = sep then [] # split_on sep cs else prepend c (split_on sep cs))"

text \<open>\<open>desc.sdp.split(/\r\n/)\<close> and \<open>sdp.join('\r\n')\<close>.\<close>

definition CR :: char where
  "CR = CHR 0x0D"

definition LF :: char where
  "LF = CHR 0x0A"

fun split_crlf :: "string \<Rightarrow> string list" where
  "split_crlf [] = [[]]"
| "split_crlf [c] = [[c]]"
| "split_crlf (c # d # cs) =
     (if c = CR \<and> d = LF then [] # split_crlf cs else prepend c (split_crlf (d # cs)))"

fun join_crlf :: "string list \<Rightarrow> string" where
  "join_crlf [] = []"
| "join_crlf [l] = l"
| "join_crlf (l # m # ls) = l @ CR # LF # join_crlf (m # ls)"

text \<open>
  Numbers. The bandwidth variable holds \<open>undefined\<close>, \<open>NaN\<close> or a number; the first two
  behave alike in every test the function makes and are both \<open>None\<close>. Numbers are exact
  rationals (the source has doubles, which are exact on the integers below \<open>2^53\<close> and
  under division by 1024). \<open>Number\<close> is modelled on the strings that the grammar of a
  bandwidth line admits, a run of decimal digits, and on the empty string, which reads 0;
  a run of digits reads the integer it writes, which is the source's double when that
  integer is below \<open>2^53\<close> or is one that the function printed itself. Every other
  string, and a missing piece, reads \<open>NaN\<close> here; the source also reads signs, fractions,
  exponents and padding blanks. The properties below apply \<open>Number\<close> to runs of digits
  only, written by the function itself or denoting an integer below \<open>2^53\<close>.
\<close>

type_synonym jsnum = "rat option"

definition digit_of_char :: "char \<Rightarrow> nat option" where
  "digit_of_char c = map_of (zip ''0123456789'' [0, 1, 2, 3, 4, 5, 6, 7, 8, 9]) c"

definition char_of_digit :: "nat \<Rightarrow> char" where
  "char_of_digit d = ''0123456789'' ! d"

fun digits_value :: "nat \<Rightarrow> string \<Rightarrow> nat option" where
  "digits_value acc [] = Some acc"
| "digits_value acc (c # cs) =
     (case digit_of_char c of None \<Rightarrow> None | Some d \<Rightarrow> digits_value (10 * acc + d) cs)"

definition Number :: "string option \<Rightarrow> jsnum" where
  "Number s = (case s of None \<Rightarrow> None | Some cs \<Rightarrow> map_option of_nat (digits_value 0 cs))"

text \<open>Template strings print an integer in decimal, with a sign when negative.\<close>

fun dec :: "nat \<Rightarrow> string" where
  "dec n = (if n < 10 then [char_of_digit n] else dec (n div 10) @ [char_of_digit (n mod 10)])"

declare dec.simps [simp del]

definition show_int :: "int \<Rightarrow> string" where
  "show_int i = (if i < 0 then CHR ''-'' # dec (nat (- i)) else dec (nat i))"

text \<open>The template strings \<open>`b=TIAS:${bps}`\<close> and \<open>`b=AS:${kbps}`\<close>.\<close>

definition tias_line :: "int \<Rightarrow> string" where
  "tias_line bps = ''b=TIAS:'' @ show_int bps"

definition as_line :: "int \<Rightarrow> string" where
  "as_line kbps = ''b=AS:'' @ show_int kbps"

text \<open>\<open>Math.round\<close> rounds to the nearest integer, halves upwards.\<close>

definition Math_round :: "rat \<Rightarrow> int" where
  "Math_round x = \<lfloor>x + 1 / 2\<rfloor>"

definition falsy :: "jsnum \<Rightarrow> bool" where
  "falsy b = (b = None \<or> b = Some 0)"

definition js_less :: "jsnum \<Rightarrow> jsnum \<Rightarrow> bool" where
  "js_less a b = (case a of None \<Rightarrow> False | Some x \<Rightarrow> (case b of None \<Rightarrow> False | Some y \<Rightarrow> x < y))"

definition js_times :: "jsnum \<Rightarrow> rat \<Rightarrow> jsnum" where
  "js_times a k = map_option (\<lambda>x. x * k) a"

text \<open>\<open>xs[1]\<close>: \<open>undefined\<close> when the array is too short.\<close>

definition second :: "'a list \<Rightarrow> 'a option" where
  "second xs = (if 1 < length xs then Some (xs ! 1) else None)"

text \<open>\<open>sdp.splice(i, 1)\<close> and \<open>sdp.splice(i, 0, v)\<close>.\<close>

definition splice_out :: "'a list \<Rightarrow> nat \<Rightarrow> 'a list" where
  "splice_out xs i = take i xs @ drop (Suc i) xs"

definition splice_in :: "'a list \<Rightarrow> nat \<Rightarrow> 'a \<Rightarrow> 'a list" where
  "splice_in xs i v = take i xs @ v # drop i xs"

text \<open>What a \<open>b=\<close> line does to the bandwidth variable.\<close>

definition line_bps :: "string \<Rightarrow> jsnum" where
  "line_bps line =
     (let adjust = (if startsWith line ''b=AS'' then 1024 else 1)
      in js_times (Number (second (split_on CHR '':'' line))) adjust)"

definition lower_of :: "jsnum \<Rightarrow> jsnum \<Rightarrow> jsnum" where
  "lower_of bps bandwidth = (if falsy bandwidth \<or> js_less bps bandwidth then bps else bandwidth)"

text \<open>
  The first loop, from index \<open>i\<close>: the array, \<open>videoOffset\<close> and \<open>bandwidth\<close> as the
  loop leaves them. \<open>videoOffset\<close> is \<open>i + 1\<close> when set, hence truthy. After
  \<open>sdp.splice(i, 1)\<close> the loop still increments \<open>i\<close>.
\<close>

function scan_bitrates ::
  "string list \<Rightarrow> nat \<Rightarrow> nat option \<Rightarrow> jsnum \<Rightarrow> string list \<times> nat option \<times> jsnum" where
  "scan_bitrates sdp i videoOffset bandwidth =
     (if i < length sdp then
        (let line = sdp ! i
         in if videoOffset \<noteq> None then
              (if startsWith line ''b='' then
                 scan_bitrates (splice_out sdp i) (i + 1) videoOffset
                   (lower_of (line_bps line) bandwidth)
               else if startsWith line ''m='' then (sdp, videoOffset, bandwidth)
               else scan_bitrates sdp (i + 1) videoOffset bandwidth)
            else if startsWith line ''m=video'' then
              scan_bitrates sdp (i + 1) (Some (i + 1)) bandwidth
            else scan_bitrates sdp (i + 1) videoOffset bandwidth)
      else (sdp, videoOffset, bandwidth))"
  by pat_completeness auto
termination
  by (relation "measure (\<lambda>(sdp, i, videoOffset, bandwidth). length sdp - i)")
     (auto simp: splice_out_def)

declare scan_bitrates.simps [simp del]

text \<open>The second loop, from index \<open>i\<close>: the two lines go in after the first \<open>c=IN\<close> line.\<close>

function insert_bitrates :: "string list \<Rightarrow> nat \<Rightarrow> string \<Rightarrow> string \<Rightarrow> string list" where
  "insert_bitrates sdp i tias as =
     (if i < length sdp then
        (if startsWith (sdp ! i) ''c=IN''
         then splice_in (splice_in sdp (i + 1) tias) (i + 2) as
         else insert_bitrates sdp (i + 1) tias as)
      else sdp)"
  by pat_completeness auto
termination
  by (relation "measure (\<lambda>(sdp, i, tias, as). length sdp - i)") auto

declare insert_bitrates.simps [simp del]

text \<open>
  The function on the array of lines. With \<open>videoOffset\<close> undefined the second loop's
  test \<open>undefined < sdp.length\<close> is false and nothing is inserted.
\<close>

definition limit_lines :: "string list \<Rightarrow> jsnum \<Rightarrow> string list" where
  "limit_lines sdp0 bandwidth0 =
     (case scan_bitrates sdp0 0 None bandwidth0 of
        (sdp, videoOffset, bandwidth) \<Rightarrow>
          if \<not> falsy bandwidth then
            (let bps = Math_round (the bandwidth);
                 kbps = Math_round (the bandwidth / 1024)
             in case videoOffset of
                  None \<Rightarrow> sdp
                | Some v \<Rightarrow> insert_bitrates sdp v (tias_line bps) (as_line kbps))
          else sdp)"

record sessionDescription =
  sd_type :: string
  sd_sdp :: string

definition limitSDPBandwidth :: "sessionDescription \<Rightarrow> jsnum \<Rightarrow> sessionDescription" where
  "limitSDPBandwidth desc bandwidth =
     \<lparr>sd_type = sd_type desc, sd_sdp = join_crlf (limit_lines (split_crlf (sd_sdp desc)) bandwidth)\<rparr>"

text \<open>
  Reading a description: the video section is what follows the first \<open>m=video\<close> line, up
  to the next \<open>m=\<close> line; its declared bitrates are the values of its \<open>b=TIAS:\<close> lines,
  in bits per second, and of its \<open>b=AS:\<close> lines, in kilobits per second.
\<close>

definition video_section :: "string list \<Rightarrow> string list" where
  "video_section sdp =
     takeWhile (\<lambda>l. \<not> startsWith l ''m='') (tl (dropWhile (\<lambda>l. \<not> startsWith l ''m=video'') sdp))"

definition tias_values :: "string list \<Rightarrow> jsnum list" where
  "tias_values ls = map (\<lambda>l. Number (Some (drop 7 l))) (filter (\<lambda>l. startsWith l ''b=TIAS:'') ls)"

definition as_values :: "string list \<Rightarrow> jsnum list" where
  "as_values ls = map (\<lambda>l. Number (Some (drop 5 l))) (filter (\<lambda>l. startsWith l ''b=AS:'') ls)"

definition video_bitrates :: "sessionDescription \<Rightarrow> jsnum list \<times> jsnum list" where
  "video_bitrates desc =
     (tias_values (video_section (split_crlf (sd_sdp desc))),
      as_values (video_section (split_crlf (sd_sdp desc))))"

text \<open>
  Example descriptions. In the first the video section has its own connection line and
  declares 500000 bits per second; in the second the connection line is at session level;
  in the third the video section declares zero; the fourth declares no bitrate.
\<close>

definition offer_500k :: sessionDescription where
  "offer_500k = \<lparr>sd_type = ''offer'', sd_sdp = join_crlf
     [''v=0'', ''m=audio 9 RTP/AVP 0'', ''c=IN IP4 0.0.0.0'', ''a=mid:0'',
      ''m=video 9 RTP/AVP 96'', ''c=IN IP4 0.0.0.0'', ''b=TIAS:500000'', ''a=mid:1'']\<rparr>"

definition offer_session_c :: sessionDescription where
  "offer_session_c = \<lparr>sd_type = ''offer'', sd_sdp = join_crlf
     [''v=0'', ''c=IN IP4 0.0.0.0'', ''m=video 9 RTP/AVP 96'', ''b=TIAS:500000'', ''a=mid:0'']\<rparr>"

definition offer_zero :: sessionDescription where
  "offer_zero = \<lparr>sd_type = ''offer'', sd_sdp = join_crlf
     [''v=0'', ''m=video 9 RTP/AVP 96'', ''c=IN IP4 0.0.0.0'', ''b=TIAS:0'', ''a=mid:0'']\<rparr>"

definition offer_plain :: sessionDescription where
  "offer_plain = \<lparr>sd_type = ''offer'', sd_sdp = join_crlf
     [''v=0'', ''m=video 9 RTP/AVP 96'', ''c=IN IP4 0.0.0.0'', ''a=mid:0'']\<rparr>"

text \<open>
  The two loops read as recursion over the lines still to be visited: \<open>scan_lines\<close>
  before the \<open>m=video\<close> line (\<open>i\<close> is the index of the head), \<open>scan_video\<close> after
  it, where the line that follows a removed \<open>b=\<close> line is passed over unread, and
  \<open>insert_after_cin\<close> for the second loop. They are shown below to compute what the
  index loops compute.
\<close>

fun scan_video :: "jsnum \<Rightarrow> string list \<Rightarrow> string list \<times> jsnum" where
  "scan_video bw [] = ([], bw)"
| "scan_video bw [l] = (if startsWith l ''b='' then ([], lower_of (line_bps l) bw) else ([l], bw))"
| "scan_video bw (l # x # xs) =
     (if startsWith l ''b='' then
        (case scan_video (lower_of (line_bps l) bw) xs of (r, b) \<Rightarrow> (x # r, b))
      else if startsWith l ''m='' then (l # x # xs, bw)
      else (case scan_video bw (x # xs) of (r, b) \<Rightarrow> (l # r, b)))"

fun scan_lines :: "nat \<Rightarrow> jsnum \<Rightarrow> string list \<Rightarrow> string list \<times> nat option \<times> jsnum" where
  "scan_lines i bw [] = ([], None, bw)"
| "scan_lines i bw (l # ls) =
     (if startsWith l ''m=video'' then
        (case scan_video bw ls of (r, b) \<Rightarrow> (l # r, Some (i + 1), b))
      else (case scan_lines (i + 1) bw ls of (r, vo, b) \<Rightarrow> (l # r, vo, b)))"

fun insert_after_cin :: "string \<Rightarrow> string \<Rightarrow> string list \<Rightarrow> string list" where
  "insert_after_cin tias as [] = []"
| "insert_after_cin tias as (l # ls) =
     (if startsWith l ''c=IN'' then l # tias # as # ls else l # insert_after_cin tias as ls)"

fun crlf_free :: "string \<Rightarrow> bool" where
  "crlf_free [] = True"
| "crlf_free [c] = True"
| "crlf_free (c # d # cs) = (\<not> (c = CR \<and> d = LF) \<and> crlf_free (d # cs))"

subsection \<open>Serialization of \<open>establish\<close> and \<open>acceptOffer\<close>\<close>

text \<open>
  Both operations hand their body to \<open>F.queueAsync\<close> under a key built from the
  member's address: \<open>`call-establish-${this.addr}`\<close> and
  \<open>`call-accept-offer-${this.addr}`\<close>. An invocation is its number, its operation and
  the address of its member view.
\<close>

datatype handshake = Establish | AcceptOffer

type_synonym invocation = "nat \<times> handshake \<times> string"

definition inv_op :: "invocation \<Rightarrow> handshake" where
  "inv_op i = fst (snd i)"

definition inv_addr :: "invocation \<Rightarrow> string" where
  "inv_addr i = snd (snd i)"

definition queue_key :: "invocation \<Rightarrow> string" where
  "queue_key i =
     (case inv_op i of
        Establish \<Rightarrow> ''call-establish-'' @ inv_addr i
      | AcceptOffer \<Rightarrow> ''call-accept-offer-'' @ inv_addr i)"

text \<open>
  Modelled from the spec: \<open>F.queueAsync\<close> is not part of the sources at hand. The
  specification describes a keyed asynchronous queue: an invocation is queued behind any
  in-flight invocation of the same key and begins when those before it have completed,
  first come first served. \<open>running\<close> holds the invocations in flight, \<open>waiting\<close> the
  queued ones in arrival order; \<open>invoked\<close> and \<open>started\<close> log the order of arrival and
  the order in which bodies began.
\<close>

record scheduler =
  running :: "invocation list"
  waiting :: "invocation list"
  invoked :: "invocation list"
  started :: "invocation list"

definition idle :: scheduler where
  "idle = \<lparr>running = [], waiting = [], invoked = [], started = []\<rparr>"

definition same_key :: "invocation \<Rightarrow> invocation \<Rightarrow> bool" where
  "same_key i j = (queue_key j = queue_key i)"

definition queueAsync :: "invocation \<Rightarrow> scheduler \<Rightarrow> scheduler" where
  "queueAsync i s =
     (if list_ex (same_key i) (running s @ waiting s)
      then s\<lparr>waiting := waiting s @ [i], invoked := invoked s @ [i]\<rparr>
      else s\<lparr>running := running s @ [i], invoked := invoked s @ [i], started := started s @ [i]\<rparr>)"

text \<open>The body of a running invocation finishes; the next one queued under its key begins.\<close>

definition finish_invocation :: "invocation \<Rightarrow> scheduler \<Rightarrow> scheduler" where
  "finish_invocation i s =
     (if i \<in> set (running s) then
        (case find (same_key i) (waiting s) of
           None \<Rightarrow> s\<lparr>running := remove1 i (running s)\<rparr>
         | Some next \<Rightarrow>
             s\<lparr>running := remove1 i (running s) @ [next],
               waiting := remove1 next (waiting s),
               started := started s @ [next]\<rparr>)
      else s)"

datatype sched_event = Invoke invocation | Complete invocation

fun sched_step :: "sched_event \<Rightarrow> scheduler \<Rightarrow> scheduler" where
  "sched_step (Invoke i) s = queueAsync i s"
| "sched_step (Complete i) s = finish_invocation i s"

definition sched_run :: "sched_event list \<Rightarrow> scheduler" where
  "sched_run evs = fold sched_step evs idle"

text \<open>An offer is being accepted when the peer joins, then two more establish calls.\<close>

definition accept_then_establish :: "sched_event list" where
  "accept_then_establish =
     [Invoke (1, AcceptOffer, ''u.1''), Invoke (2, Establish, ''u.1'')]"

definition three_establish :: "sched_event list" where
  "three_establish =
     [Invoke (1, Establish, ''u.1''), Invoke (2, Establish, ''u.1''), Invoke (3, AcceptOffer, ''u.1''),
      Invoke (4, Establish, ''u.1''), Complete (1, Establish, ''u.1'')]"

text \<open>
  What holds of every state the scheduler reaches: keys in flight are distinct, a waiting
  invocation has one of its key in flight, and per key the started invocations followed by
  the waiting ones are the invoked ones, in order.
\<close>

definition sched_inv :: "scheduler \<Rightarrow> bool" where
  "sched_inv s =
     (distinct (map queue_key (running s))
      \<and> list_all (\<lambda>w. list_ex (same_key w) (running s)) (waiting s)
      \<and> (\<forall>i. filter (same_key i) (started s) @ filter (same_key i) (waiting s)
                = filter (same_key i) (invoked s)))"

subsection \<open>CandidateQueue: early ICE candidates\<close>

text \<open>
  Modelled from the spec: \<open>F.util.DefaultMap\<close> is not part of the sources at hand. The
  entry for a peer id is created lazily, with the empty array that the factory \<open>Array\<close>
  returns, on the first \<open>get\<close> of a missing key.
\<close>

type_synonym 'c earlyICE = "string \<rightharpoonup> 'c list"

definition defaultmap_get :: "'c earlyICE \<Rightarrow> string \<Rightarrow> 'c list \<times> 'c earlyICE" where
  "defaultmap_get m k = (case m k of None \<Rightarrow> ([], m(k \<mapsto> [])) | Some b \<Rightarrow> (b, m))"

text \<open>\<open>bucket.push.apply(bucket, icecandidates)\<close> appends in place to the array held by the map.\<close>

definition enqueueEarlyICECandidates :: "'c earlyICE \<Rightarrow> string \<Rightarrow> 'c list \<Rightarrow> 'c earlyICE" where
  "enqueueEarlyICECandidates m peerId icecandidates =
     (let (bucket, m') = defaultmap_get m peerId
      in m'(peerId \<mapsto> bucket @ icecandidates))"

text \<open>A drain returns \<open>undefined\<close> (\<open>None\<close>) when the map has no entry for the id.\<close>

definition drainEarlyICECandidates :: "'c earlyICE \<Rightarrow> string \<Rightarrow> 'c list option \<times> 'c earlyICE" where
  "drainEarlyICECandidates m peerId =
     (if m peerId = None then (None, m)
      else let (bucket, m') = defaultmap_get m peerId
           in (Some bucket, m'(peerId := None)))"

fun enqueue_all :: "'c earlyICE \<Rightarrow> (string \<times> 'c list) list \<Rightarrow> 'c earlyICE" where
  "enqueue_all m [] = m"
| "enqueue_all m ((k, cs) # calls) = enqueue_all (enqueueEarlyICECandidates m k cs) calls"

definition batches_for :: "string \<Rightarrow> (string \<times> 'c list) list \<Rightarrow> 'c list list" where
  "batches_for peerId calls = map snd (filter (\<lambda>c. fst c = peerId) calls)"

section \<open>Properties\<close>

subsection \<open>PeerLink staleness\<close>

lemma ice_events_added: "meta_added (ice_events evs p) = meta_added p"
  by (induction evs p rule: ice_events.induct) (simp_all add: iceconnectionstatechange_def Let_def)

lemma ice_events_connected:
  "clock_ok t evs \<Longrightarrow> 0 < t \<Longrightarrow> (\<forall>c. meta_connected p = Some c \<longrightarrow> a \<le> c \<and> 0 < c) \<Longrightarrow> a \<le> t
   \<Longrightarrow> meta_connected (ice_events evs p) = Some c \<Longrightarrow> a \<le> c \<and> 0 < c"
proof (induction evs arbitrary: t p)
  case Nil
  then show ?case by simp
next
  case (Cons e evs)
  obtain t' st bound where e: "e = (t', st, bound)" by (cases e) auto
  from Cons.prems e have ok: "clock_ok t' evs" and le: "t \<le> t'" by simp_all
  let ?p = "iceconnectionstatechange t' st bound p"
  have inv: "\<forall>c. meta_connected ?p = Some c \<longrightarrow> a \<le> c \<and> 0 < c"
    using Cons.prems(2,3,4) le by (auto simp: iceconnectionstatechange_def Let_def)
  have "meta_connected (ice_events evs ?p) = Some c" using Cons.prems(5) e by simp
  from Cons.IH [OF ok _ inv _ this] Cons.prems(2,4) le show ?case by simp
qed

lemma link_history_stamps:
  assumes "0 < t0" and "clock_ok t0 evs"
  shows "meta_added (link_history t0 evs) = Some t0"
    and "meta_connected (link_history t0 evs) = Some c \<Longrightarrow> t0 \<le> c \<and> 0 < c"
proof -
  show "meta_added (link_history t0 evs) = Some t0"
    by (simp add: link_history_def ice_events_added addPeer_meta_def)
  assume c: "meta_connected (link_history t0 evs) = Some c"
  have "\<forall>c. meta_connected (addPeer_meta t0 new_peer) = Some c \<longrightarrow> t0 \<le> c \<and> 0 < c"
    by (simp add: addPeer_meta_def new_peer_def)
  from ice_events_connected [OF assms(2) assms(1) this _ c [unfolded link_history_def]]
  show "t0 \<le> c \<and> 0 < c" by simp
qed

lemma ice_events_never_connected:
  "never_connected evs \<Longrightarrow> \<not> isConnected p \<Longrightarrow>
     meta_connected (ice_events evs p) = meta_connected p \<and> \<not> isConnected (ice_events evs p)"
proof (induction evs arbitrary: p)
  case Nil
  then show ?case by simp
next
  case (Cons e evs)
  obtain t st bound where e: "e = (t, st, bound)" by (cases e) auto
  from Cons.prems(1) e have st: "st \<noteq> Connected" "st \<noteq> Completed" and rest: "never_connected evs"
    by (simp_all add: never_connected_def)
  let ?p = "iceconnectionstatechange t st bound p"
  have p: "\<not> isConnected ?p" "meta_connected ?p = meta_connected p"
    using st by (simp_all add: iceconnectionstatechange_def isConnected_def Let_def)
  from Cons.IH [OF rest p(1)] p(2) e show ?case by simp
qed

text \<open>
  Claim C5. For a link that was added at a positive clock reading and then saw ICE state
  changes in clock order, \<open>isStale\<close> holds exactly when the link is not connected and more
  than 30000 ms have passed since the later of its connected-at stamp (if set) and its
  added-at stamp. A sole link that never connected is scheduled for stale removal by a
  reconciliation pass 31 seconds after it was added, and not by one at 29 seconds.
\<close>

theorem isStale_later_stamp:
  assumes "0 < t0" and "clock_ok t0 evs"
  shows "(isStale now (link_history t0 evs) \<longleftrightarrow>
            \<not> isConnected (link_history t0 evs) \<and>
            elapsed_over now (later_stamp (link_history t0 evs)) 30000)
         \<and> (never_connected evs \<longrightarrow>
              peerCheck_stale False (t0 + 31000) [link_history t0 evs] = [link_history t0 evs]
            \<and> peerCheck_stale False (t0 + 29000) [link_history t0 evs] = [])"
proof -
  let ?p = "link_history t0 evs"
  have a: "meta_added ?p = Some t0" by (rule link_history_stamps(1) [OF assms])
  have "isStale now ?p \<longleftrightarrow> \<not> isConnected ?p \<and> elapsed_over now (later_stamp ?p) 30000"
  proof (cases "meta_connected ?p")
    case None
    then show ?thesis using a
      by (simp add: isStale_def later_stamp_def truthy_time_def elapsed_over_def)
  next
    case (Some c)
    from link_history_stamps(2) [OF assms Some] have "t0 \<le> c" "0 < c" by simp_all
    then show ?thesis using a Some
      by (simp add: isStale_def later_stamp_def truthy_time_def elapsed_over_def max_def)
  qed
  moreover have "peerCheck_stale False (t0 + 31000) [?p] = [?p]
      \<and> peerCheck_stale False (t0 + 29000) [?p] = []" if nc: "never_connected evs"
  proof -
    have "\<not> isConnected (addPeer_meta t0 new_peer)"
      by (simp add: addPeer_meta_def new_peer_def isConnected_def)
    from ice_events_never_connected [OF nc this]
    have "meta_connected ?p = None" "\<not> isConnected ?p"
      by (simp_all add: link_history_def addPeer_meta_def new_peer_def)
    then show ?thesis using a
      by (simp add: peerCheck_stale_def isStale_def truthy_time_def elapsed_over_def)
  qed
  ultimately show ?thesis by simp
qed

theorem isStale_later_stamp_witness:
  "(0::int) < 1000 \<and> clock_ok 1000 [(2000, Connected, True), (5000, Disconnected, True)]
   \<and> isStale 35001 (link_history 1000 [(2000, Connected, True), (5000, Disconnected, True)])
   \<and> \<not> isStale 32000 (link_history 1000 [(2000, Connected, True), (5000, Disconnected, True)])
   \<and> elapsed_over 35001 (later_stamp (link_history 1000 [(2000, Connected, True), (5000, Disconnected, True)])) 30000
   \<and> clock_ok 1000 [(2000, Checking, True), (9000, Failed, True)]
   \<and> never_connected [(2000, Checking, True), (9000, Failed, True)]
   \<and> peerCheck_stale False 32000 [link_history 1000 [(2000, Checking, True), (9000, Failed, True)]]
       = [link_history 1000 [(2000, Checking, True), (9000, Failed, True)]]
   \<and> peerCheck_stale False 30000 [link_history 1000 [(2000, Checking, True), (9000, Failed, True)]] = []"
proof -
  have h1: "(0::int) < 1000" by simp
  have h2: "clock_ok 1000 [(2000, Connected, True), (5000, Disconnected, True)]" by simp
  have h3: "clock_ok 1000 [(2000, Checking, True), (9000, Failed, True)]" by simp
  have h4: "never_connected [(2000, Checking, True), (9000, Failed, True)]"
    by (simp add: never_connected_def)
  have e: "elapsed_over 35001 (later_stamp (link_history 1000 [(2000, Connected, True), (5000, Disconnected, True)])) 30000"
    by (simp add: link_history_def addPeer_meta_def new_peer_def iceconnectionstatechange_def
        isConnected_def later_stamp_def elapsed_over_def)
  have n: "\<not> isStale 32000 (link_history 1000 [(2000, Connected, True), (5000, Disconnected, True)])"
    by (simp add: link_history_def addPeer_meta_def new_peer_def iceconnectionstatechange_def
        isConnected_def isStale_def truthy_time_def elapsed_over_def)
  have c: "\<not> isConnected (link_history 1000 [(2000, Connected, True), (5000, Disconnected, True)])"
    by (simp add: link_history_def addPeer_meta_def new_peer_def iceconnectionstatechange_def
        isConnected_def)
  from isStale_later_stamp [OF h1 h2, of 35001] isStale_later_stamp [OF h1 h3, of 0]
    e n c h1 h2 h3 h4 show ?thesis by simp
qed

subsection \<open>Early ICE candidates\<close>

lemma enqueue_lookup:
  "enqueueEarlyICECandidates m k cs k' =
     (if k' = k then Some ((case m k of None \<Rightarrow> [] | Some b \<Rightarrow> b) @ cs) else m k')"
  by (simp add: enqueueEarlyICECandidates_def defaultmap_get_def split: option.splits)

lemma enqueue_all_lookup:
  "enqueue_all m calls peerId =
     (case m peerId of
        Some b \<Rightarrow> Some (b @ concat (batches_for peerId calls))
      | None \<Rightarrow> if peerId \<in> fst ` set calls then Some (concat (batches_for peerId calls)) else None)"
proof (induction m calls rule: enqueue_all.induct)
  case (1 m)
  then show ?case by (simp add: batches_for_def split: option.splits)
next
  case (2 m k cs calls)
  let ?m = "enqueueEarlyICECandidates m k cs"
  have step: "enqueue_all m ((k, cs) # calls) peerId = enqueue_all ?m calls peerId" by simp
  show ?case
  proof (cases "k = peerId")
    case True
    then have "?m peerId = Some ((case m peerId of None \<Rightarrow> [] | Some b \<Rightarrow> b) @ cs)"
      by (simp add: enqueue_lookup)
    with 2 True show ?thesis
      unfolding step by (simp add: batches_for_def split: option.splits)
  next
    case False
    then have "?m peerId = m peerId" by (simp add: enqueue_lookup)
    with 2 False show ?thesis
      unfolding step by (simp add: batches_for_def split: option.splits)
  qed
qed

lemma drain_result:
  "drainEarlyICECandidates m peerId = (m peerId, m(peerId := None))"
  by (auto simp: drainEarlyICECandidates_def defaultmap_get_def split: option.splits)

text \<open>
  Claim C2. From a queue with no entry for a peer id (as after construction, or after a
  drain of that id), any sequence of enqueue calls, for this id and for others, followed by
  one drain of the id returns the candidates enqueued for that id, concatenated in arrival
  order, and nothing of any other id; the drain signals empty (\<open>None\<close>) only when no call
  was made for the id. Afterwards the id has no entry and a second drain signals empty.
\<close>

theorem drain_returns_enqueued_in_order:
  assumes "m peerId = None"
  shows "fst (drainEarlyICECandidates (enqueue_all m calls) peerId) =
           (if peerId \<in> fst ` set calls then Some (concat (batches_for peerId calls)) else None)
         \<and> snd (drainEarlyICECandidates (enqueue_all m calls) peerId) peerId = None
         \<and> fst (drainEarlyICECandidates
                  (snd (drainEarlyICECandidates (enqueue_all m calls) peerId)) peerId) = None"
  using assms by (simp add: drain_result enqueue_all_lookup)

theorem drain_returns_enqueued_in_order_witness:
  "(Map.empty :: nat earlyICE) ''p1'' = None
   \<and> fst (drainEarlyICECandidates
        (enqueue_all Map.empty [(''p1'', [1, 2]), (''p2'', [7]), (''p1'', [3::nat])]) ''p1'')
      = Some [1, 2, 3]
   \<and> fst (drainEarlyICECandidates
        (snd (drainEarlyICECandidates
           (enqueue_all Map.empty [(''p1'', [1, 2]), (''p2'', [7]), (''p1'', [3::nat])]) ''p1'')) ''p1'')
      = None"
proof -
  have h: "(Map.empty :: nat earlyICE) ''p1'' = None" by simp
  from drain_returns_enqueued_in_order [OF h, of "[(''p1'', [1, 2]), (''p2'', [7]), (''p1'', [3::nat])]"]
  show ?thesis by (simp add: batches_for_def)
qed

subsection \<open>Removing peers of a member\<close>

lemma effects_emit [simp]: "effects (emit e m) = effects m @ [e]"
  by (simp add: emit_def)

lemma emit_fields [simp]:
  "peers (emit e m) = peers m" "streamingPeer (emit e m) = streamingPeer m"
  "stream (emit e m) = stream m" "receivers (emit e m) = receivers m"
  "links (emit e m) = links m" "viewListeners (emit e m) = viewListeners m"
  "videoEl (emit e m) = videoEl m"
  by (simp_all add: emit_def)

lemma find_peer_None: "find (\<lambda>(key, val). val = peer) ps = None \<longleftrightarrow> peer \<notin> snd ` set ps"
  by (induction ps) auto

lemma find_peer_Some:
  "peer \<in> snd ` set ps \<Longrightarrow> \<exists>k. find (\<lambda>(key, val). val = peer) ps = Some (k, peer) \<and> (k, peer) \<in> set ps"
  by (induction ps) auto

lemma removePeer_absent:
  "peer \<notin> snd ` set (peers m) \<Longrightarrow> removePeer now peer m = m\<lparr>effects := effects m @ [LogPeerAlreadyRemoved peer]\<rparr>"
  by (simp add: removePeer_def find_peer_None [THEN iffD2] emit_def)

lemma removeStream_fields:
  "peers (removeStream now m) = peers m" "streamingPeer (removeStream now m) = None"
  "stream (removeStream now m) = None" "receivers (removeStream now m) = receivers m"
  "links (removeStream now m) = links m" "viewListeners (removeStream now m) = viewListeners m"
  "cls_streaming (removeStream now m) = False" "cls_audioOnly (removeStream now m) = False"
  "videoEl (removeStream now m) = (case videoEl m of None \<Rightarrow> None | Some s \<Rightarrow> Some None)"
  "soundMeter (removeStream now m) = None"
  by (simp_all add: removeStream_def Let_def setStreaming_def setAudioOnly_def emit_def split: option.splits)

lemma removeStream_effects:
  "\<exists>pre. effects (removeStream now m) = effects m @ pre @ [TriggerStreamUpdate None]
     \<and> set pre \<subseteq> {TriggerStreaming False, TriggerAudioOnly False} \<union> range SoundMeterDisconnect"
  by (auto simp add: removeStream_def Let_def setStreaming_def setAudioOnly_def emit_def split: option.splits)

lemma fold_emit_effects: "effects (fold (\<lambda>x. emit (f x)) xs m) = effects m @ map f xs"
  by (induction xs arbitrary: m) simp_all

lemma fold_emit_fields:
  "peers (fold (\<lambda>x. emit (f x)) xs m) = peers m"
  "streamingPeer (fold (\<lambda>x. emit (f x)) xs m) = streamingPeer m"
  "stream (fold (\<lambda>x. emit (f x)) xs m) = stream m"
  "receivers (fold (\<lambda>x. emit (f x)) xs m) = receivers m"
  "links (fold (\<lambda>x. emit (f x)) xs m) = links m"
  "viewListeners (fold (\<lambda>x. emit (f x)) xs m) = viewListeners m"
  by (induction xs arbitrary: m, simp_all)+

lemma unbindPeer_fields [simp]:
  "peers (unbindPeer p m) = peers m" "streamingPeer (unbindPeer p m) = streamingPeer m"
  "stream (unbindPeer p m) = stream m" "receivers (unbindPeer p m) = receivers m"
  "links (unbindPeer p m) = links m"
  "effects (unbindPeer p m) = effects m @ (if viewListeners m p then [RemoveEventListeners p] else [])"
  by (simp_all add: unbindPeer_def emit_def)

lemma removePeer_present:
  fixes now :: int
  assumes "find (\<lambda>(key, val). val = peer) (peers m) = Some (k, peer)"
  defines "m1 \<equiv> (if streamingPeer m = Some peer then removeStream now m else m)"
  shows "peers (removePeer now peer m) = filter (\<lambda>(key, val). key \<noteq> k) (peers m)"
    and "streamingPeer (removePeer now peer m) = streamingPeer m1"
    and "stream (removePeer now peer m) = stream m1"
    and "effects (removePeer now peer m) =
           effects m1 @ (if viewListeners m peer then [RemoveEventListeners peer] else [])
             @ map TrackStop (receivers m peer) @ [PeerClose peer]"
  using assms(1) unfolding m1_def
  by (simp_all add: removePeer_def Let_def peer_close_def fold_emit_fields fold_emit_effects
      removeStream_fields)

lemma find_head: "find (\<lambda>(key, val). val = p) ((k, p) # rest) = Some (k, p)"
  by simp

lemma filter_key_rest:
  "distinct (map fst ((k, p) # rest)) \<Longrightarrow> filter (\<lambda>(key, val). key \<noteq> k) ((k, p) # rest) = rest"
  by (auto simp: filter_id_conv image_iff)

lemma removePeer_other:
  assumes "streamingPeer m \<noteq> Some p"
  shows "streamingPeer (removePeer now p m) = streamingPeer m"
    and "stream (removePeer now p m) = stream m"
    and "\<exists>es. effects (removePeer now p m) = effects m @ es
            \<and> TriggerStreamUpdate None \<notin> set es \<and> (\<forall>q. q \<noteq> p \<longrightarrow> PeerClose q \<notin> set es)"
proof -
  show "streamingPeer (removePeer now p m) = streamingPeer m"
    using assms
    by (cases "find (\<lambda>(key, val). val = p) (peers m)")
       (auto simp: removePeer_def Let_def peer_close_def fold_emit_fields)
  show "stream (removePeer now p m) = stream m"
    using assms
    by (cases "find (\<lambda>(key, val). val = p) (peers m)")
       (auto simp: removePeer_def Let_def peer_close_def fold_emit_fields)
  show "\<exists>es. effects (removePeer now p m) = effects m @ es
            \<and> TriggerStreamUpdate None \<notin> set es \<and> (\<forall>q. q \<noteq> p \<longrightarrow> PeerClose q \<notin> set es)"
    using assms
    by (cases "find (\<lambda>(key, val). val = p) (peers m)")
       (auto simp: removePeer_def Let_def peer_close_def fold_emit_fields fold_emit_effects)
qed

lemma removePeer_streaming:
  assumes "find (\<lambda>(key, val). val = q) (peers m) = Some (k, q)" and "streamingPeer m = Some q"
  shows "streamingPeer (removePeer now q m) = None"
    and "stream (removePeer now q m) = None"
    and "\<exists>es. effects (removePeer now q m) = effects m @ es \<and> cleared_before_close q es"
proof -
  show "streamingPeer (removePeer now q m) = None" "stream (removePeer now q m) = None"
    using assms by (simp_all add: removePeer_present removeStream_fields)
  obtain pre where pre: "effects (removeStream now m) = effects m @ pre @ [TriggerStreamUpdate None]"
    "set pre \<subseteq> {TriggerStreaming False, TriggerAudioOnly False} \<union> range SoundMeterDisconnect"
    using removeStream_effects by blast
  have cbc: "\<And>es. cleared_before_close q (pre @ TriggerStreamUpdate None # es) = (PeerClose q \<in> set es)"
    using pre(2) by (induction pre) auto
  have "effects (removePeer now q m) = effects m @ (pre @ TriggerStreamUpdate None #
          ((if viewListeners m q then [RemoveEventListeners q] else [])
             @ map TrackStop (receivers m q) @ [PeerClose q]))"
    using assms pre(1) by (simp add: removePeer_present)
  moreover have "cleared_before_close q (pre @ TriggerStreamUpdate None #
          ((if viewListeners m q then [RemoveEventListeners q] else [])
             @ map TrackStop (receivers m q) @ [PeerClose q]))"
    unfolding cbc by simp
  ultimately show "\<exists>es. effects (removePeer now q m) = effects m @ es \<and> cleared_before_close q es"
    by blast
qed

lemma cleared_before_close_append:
  "TriggerStreamUpdate None \<notin> set es \<Longrightarrow> PeerClose q \<notin> set es
   \<Longrightarrow> cleared_before_close q (es @ es') = cleared_before_close q es'"
  by (induction es) auto

lemma cleared_before_close_extend:
  "cleared_before_close q es \<Longrightarrow> cleared_before_close q (es @ es')"
  by (induction es) auto

lemma fold_removePeer_idle:
  "streamingPeer m = None \<Longrightarrow>
     streamingPeer (fold (removePeer now) ps m) = None
     \<and> stream (fold (removePeer now) ps m) = stream m
     \<and> (\<exists>es. effects (fold (removePeer now) ps m) = effects m @ es)"
proof (induction ps arbitrary: m)
  case Nil
  then show ?case by simp
next
  case (Cons p ps)
  have ne: "streamingPeer m \<noteq> Some p" using Cons.prems by simp
  from removePeer_other [OF ne, of now] Cons.prems
  have a: "streamingPeer (removePeer now p m) = None" "stream (removePeer now p m) = stream m"
    and "\<exists>es. effects (removePeer now p m) = effects m @ es" by auto
  then obtain es where es: "effects (removePeer now p m) = effects m @ es" by blast
  from Cons.IH [OF a(1)] a(2) es show ?case by auto
qed

lemma fold_removePeer_all:
  "wf_peers m \<Longrightarrow> peers m = ps \<Longrightarrow>
     peers (fold (removePeer now) (map snd ps) m) = []
     \<and> (streamingPeer m = Some q \<longrightarrow> q \<in> snd ` set ps \<longrightarrow>
          streamingPeer (fold (removePeer now) (map snd ps) m) = None
          \<and> stream (fold (removePeer now) (map snd ps) m) = None
          \<and> (\<exists>es. effects (fold (removePeer now) (map snd ps) m) = effects m @ es
                 \<and> cleared_before_close q es))"
proof (induction ps arbitrary: m)
  case Nil
  then show ?case by simp
next
  case (Cons e rest)
  obtain k p where e: "e = (k, p)" by (cases e) auto
  let ?m1 = "removePeer now p m"
  have f: "find (\<lambda>(key, val). val = p) (peers m) = Some (k, p)"
    using Cons.prems(2) e by simp
  have peers1: "peers ?m1 = rest"
    using Cons.prems e f by (auto simp add: removePeer_present(1) [OF f] wf_peers_def filter_id_conv image_iff)
  have wf1: "wf_peers ?m1" using Cons.prems e peers1 by (simp add: wf_peers_def)
  note IH = Cons.IH [OF wf1 peers1]
  have fold_eq: "fold (removePeer now) (map snd (e # rest)) m = fold (removePeer now) (map snd rest) ?m1"
    using e by simp
  show ?case unfolding fold_eq
  proof (intro conjI impI)
    show "peers (fold (removePeer now) (map snd rest) ?m1) = []" using IH by simp
  next
    assume sp: "streamingPeer m = Some q" and qin: "q \<in> snd ` set (e # rest)"
    show "streamingPeer (fold (removePeer now) (map snd rest) ?m1) = None"
      "stream (fold (removePeer now) (map snd rest) ?m1) = None"
      "\<exists>es. effects (fold (removePeer now) (map snd rest) ?m1) = effects m @ es \<and> cleared_before_close q es"
    proof -
      have "streamingPeer (fold (removePeer now) (map snd rest) ?m1) = None
        \<and> stream (fold (removePeer now) (map snd rest) ?m1) = None
        \<and> (\<exists>es. effects (fold (removePeer now) (map snd rest) ?m1) = effects m @ es \<and> cleared_before_close q es)"
      proof (cases "p = q")
        case True
        from removePeer_streaming [OF f [unfolded True] sp, of now] True
        obtain es where s1: "streamingPeer ?m1 = None" "stream ?m1 = None"
          "effects ?m1 = effects m @ es" "cleared_before_close q es" by auto
        from fold_removePeer_idle [OF s1(1), of now "map snd rest"] s1(2)
        obtain es' where "streamingPeer (fold (removePeer now) (map snd rest) ?m1) = None"
          "stream (fold (removePeer now) (map snd rest) ?m1) = None"
          "effects (fold (removePeer now) (map snd rest) ?m1) = effects ?m1 @ es'" by auto
        then show ?thesis using s1(3,4) cleared_before_close_extend [of q es es'] by auto
      next
        case False
        then have ne: "streamingPeer m \<noteq> Some p" using sp by simp
        from removePeer_other [OF ne, of now] False
        obtain es where s1: "streamingPeer ?m1 = streamingPeer m" "stream ?m1 = stream m"
          "effects ?m1 = effects m @ es" "TriggerStreamUpdate None \<notin> set es" "PeerClose q \<notin> set es"
          by (metis (no_types))
        have qin': "q \<in> snd ` set rest" using qin False e by auto
        from IH s1(1) sp qin'
        obtain es' where "streamingPeer (fold (removePeer now) (map snd rest) ?m1) = None"
          "stream (fold (removePeer now) (map snd rest) ?m1) = None"
          "effects (fold (removePeer now) (map snd rest) ?m1) = effects ?m1 @ es'"
          "cleared_before_close q es'" by auto
        then show ?thesis using s1(3) cleared_before_close_append [OF s1(4,5), of es'] by auto
      qed
      then show "streamingPeer (fold (removePeer now) (map snd rest) ?m1) = None"
      "stream (fold (removePeer now) (map snd rest) ?m1) = None"
      "\<exists>es. effects (fold (removePeer now) (map snd rest) ?m1) = effects m @ es \<and> cleared_before_close q es"
        by simp_all
    qed
  qed
qed

lemma removePeer_keeps_other:
  assumes "wf_peers m" and "q \<in> snd ` set (peers m)" and "p \<noteq> q"
  shows "q \<in> snd ` set (peers (removePeer now p m))"
proof (cases "p \<in> snd ` set (peers m)")
  case False
  then show ?thesis using assms(2) by (simp add: removePeer_absent)
next
  case True
  from find_peer_Some [OF True] obtain k where
    k: "find (\<lambda>(key, val). val = p) (peers m) = Some (k, p)" "(k, p) \<in> set (peers m)" by blast
  from assms(2) obtain k' where k': "(k', q) \<in> set (peers m)" by auto
  have "k' \<noteq> k"
  proof
    assume "k' = k"
    with k(2) k' assms(1) have "p = q"
      by (metis wf_peers_def eq_key_imp_eq_value)
    with assms(3) show False by simp
  qed
  with k' have "(k', q) \<in> set (filter (\<lambda>(key, val). key \<noteq> k) (peers m))" by simp
  then show ?thesis unfolding removePeer_present(1) [OF k(1)] by force
qed

lemma removePeer_gone:
  assumes "distinct (map snd (peers m))"
  shows "p \<notin> snd ` set (peers (removePeer now p m))"
proof (cases "p \<in> snd ` set (peers m)")
  case False
  then show ?thesis by (simp add: removePeer_absent)
next
  case True
  from find_peer_Some [OF True] obtain k where
    k: "find (\<lambda>(key, val). val = p) (peers m) = Some (k, p)" "(k, p) \<in> set (peers m)" by blast
  have "\<And>k'. (k', p) \<in> set (peers m) \<Longrightarrow> k' = k"
    using assms k(2) by (metis distinct_map inj_on_def snd_conv fst_conv)
  then show ?thesis unfolding removePeer_present(1) [OF k(1)] by auto
qed

text \<open>
  Claim C10. Calling \<open>removePeer\<close> with a connection that is not in the member's peer map
  changes nothing but the log: peer map, streaming-peer binding, rendered stream, listeners,
  receivers and connections stay as they are, no track is stopped and nothing is closed.
  As each connection is registered once, a second removal of the same peer finds it gone and
  is such a call.
\<close>

theorem removePeer_absent_unchanged:
  assumes "distinct (getPeers m)"
  shows "(peer \<notin> set (getPeers m) \<longrightarrow>
            removePeer now peer m = m\<lparr>effects := effects m @ [LogPeerAlreadyRemoved peer]\<rparr>)
         \<and> removePeer now' peer (removePeer now peer m) =
             (removePeer now peer m)\<lparr>effects := effects (removePeer now peer m) @ [LogPeerAlreadyRemoved peer]\<rparr>"
proof -
  have "peer \<notin> snd ` set (peers (removePeer now peer m))"
    using assms by (simp add: removePeer_gone getPeers_def)
  then show ?thesis by (simp add: removePeer_absent getPeers_def)
qed

theorem removePeer_absent_unchanged_witness:
  "distinct (getPeers member_two_links) \<and> 5 \<notin> set (getPeers member_two_links)
   \<and> removePeer 100 5 member_two_links =
       member_two_links\<lparr>effects := effects member_two_links @ [LogPeerAlreadyRemoved 5]\<rparr>
   \<and> effects (removePeer 200 1 (removePeer 100 1 member_two_links)) =
       effects (removePeer 100 1 member_two_links) @ [LogPeerAlreadyRemoved 1]"
proof -
  have h: "distinct (getPeers member_two_links)" "5 \<notin> set (getPeers member_two_links)"
    by (simp_all add: getPeers_def member_two_links_def)
  from removePeer_absent_unchanged [OF h(1), of 5 100 200]
    removePeer_absent_unchanged [OF h(1), of 1 100 200] h
  show ?thesis by simp
qed

text \<open>
  Claim C9. When the streaming link \<open>q\<close> of a member is removed, the rendered stream and the
  streaming-peer binding are cleared first: \<open>removePeer\<close> runs \<open>removeStream\<close> on the
  unchanged member and only then unbinds the listeners, deletes the map entry, stops the
  receivers' tracks and closes the connection. The three removing operations keep to this:
  the stale-link callback either leaves the streaming link in place or removes it after
  clearing the stream, the redundant-link callback never removes the streaming link, and
  \<open>remove\<close> empties the peer map with the stream cleared before the streaming link is closed.
\<close>

theorem streaming_peer_cleared_before_removal:
  assumes "wf_peers m" and "streamingPeer m = Some q" and "q \<in> set (getPeers m)"
  shows "(streamingPeer (removePeer now q m) = None \<and> stream (removePeer now q m) = None
          \<and> q \<notin> set (getPeers (removePeer now q m))
          \<and> effects (removePeer now q m) =
              effects (removeStream now m)
              @ (if viewListeners m q then [RemoveEventListeners q] else [])
              @ map TrackStop (receivers m q) @ [PeerClose q]
          \<and> streamingPeer (removeStream now m) = None \<and> stream (removeStream now m) = None
          \<and> last (effects (removeStream now m)) = TriggerStreamUpdate None
          \<and> cleared_before_close q (new_effects m (removePeer now q m)))
       \<and> ((streamingPeer (stale_action now p m) = Some q \<and> stream (stale_action now p m) = stream m
             \<and> q \<in> set (getPeers (stale_action now p m)))
            \<or> (p = q \<and> streamingPeer (stale_action now p m) = None \<and> stream (stale_action now p m) = None
                \<and> cleared_before_close q (new_effects m (stale_action now p m))))
       \<and> (streamingPeer (redundant_action now p m) = Some q \<and> stream (redundant_action now p m) = stream m
            \<and> q \<in> set (getPeers (redundant_action now p m)))
       \<and> (\<not> outgoing m \<longrightarrow>
              peers (member_remove now m) = [] \<and> streamingPeer (member_remove now m) = None
            \<and> stream (member_remove now m) = None
            \<and> cleared_before_close q (new_effects m (member_remove now m)))"
proof -
  have qin: "q \<in> snd ` set (peers m)" using assms(3) by (simp add: getPeers_def)
  from find_peer_Some [OF qin] obtain k where
    k: "find (\<lambda>(key, val). val = q) (peers m) = Some (k, q)" by blast
  have own: "streamingPeer (removePeer now q m) = None \<and> stream (removePeer now q m) = None
          \<and> cleared_before_close q (new_effects m (removePeer now q m))" for now
    using removePeer_streaming [OF k assms(2), of now] by (auto simp: new_effects_def)
  have part1: "streamingPeer (removePeer now q m) = None \<and> stream (removePeer now q m) = None
          \<and> q \<notin> set (getPeers (removePeer now q m))
          \<and> effects (removePeer now q m) =
              effects (removeStream now m)
              @ (if viewListeners m q then [RemoveEventListeners q] else [])
              @ map TrackStop (receivers m q) @ [PeerClose q]
          \<and> streamingPeer (removeStream now m) = None \<and> stream (removeStream now m) = None
          \<and> last (effects (removeStream now m)) = TriggerStreamUpdate None
          \<and> cleared_before_close q (new_effects m (removePeer now q m))"
  proof -
    have "q \<notin> set (getPeers (removePeer now q m))"
      using assms(1) removePeer_gone [of m q now] by (simp add: wf_peers_def getPeers_def)
    moreover have "effects (removePeer now q m) =
              effects (removeStream now m)
              @ (if viewListeners m q then [RemoveEventListeners q] else [])
              @ map TrackStop (receivers m q) @ [PeerClose q]"
      using assms(2) by (simp add: removePeer_present(4) [OF k])
    moreover have "last (effects (removeStream now m)) = TriggerStreamUpdate None"
      using removeStream_effects [of now m] by auto
    ultimately show ?thesis using own [of now] by (simp add: removeStream_fields)
  qed
  have other: "streamingPeer (removePeer now p m) = Some q \<and> stream (removePeer now p m) = stream m
             \<and> q \<in> set (getPeers (removePeer now p m))" if "p \<noteq> q" for p
  proof -
    have ne: "streamingPeer m \<noteq> Some p" using that assms(2) by simp
    from removePeer_other(1,2) [OF ne, of now] removePeer_keeps_other [OF assms(1) qin that, of now]
    show ?thesis using assms(2) by (simp add: getPeers_def)
  qed
  have part2: "(streamingPeer (stale_action now p m) = Some q \<and> stream (stale_action now p m) = stream m
             \<and> q \<in> set (getPeers (stale_action now p m)))
            \<or> (p = q \<and> streamingPeer (stale_action now p m) = None \<and> stream (stale_action now p m) = None
                \<and> cleared_before_close q (new_effects m (stale_action now p m)))"
  proof (cases "isConnected (links m p)")
    case True
    then show ?thesis using assms(2,3) by (simp add: stale_action_def)
  next
    case False
    then have sa: "stale_action now p m = removePeer now p m" by (simp add: stale_action_def)
    show ?thesis
    proof (cases "p = q")
      case True
      then show ?thesis unfolding sa using own [of now] by simp
    next
      case False
      then show ?thesis unfolding sa using other [OF False] by simp
    qed
  qed
  have part3: "streamingPeer (redundant_action now p m) = Some q \<and> stream (redundant_action now p m) = stream m
            \<and> q \<in> set (getPeers (redundant_action now p m))"
  proof (cases "p = q")
    case True
    then show ?thesis using assms(2,3) by (simp add: redundant_action_def)
  next
    case False
    then have "redundant_action now p m = removePeer now p m"
      using assms(2) by (simp add: redundant_action_def)
    then show ?thesis using other [OF False] by simp
  qed
  have part4: "\<not> outgoing m \<longrightarrow>
              peers (member_remove now m) = [] \<and> streamingPeer (member_remove now m) = None
            \<and> stream (member_remove now m) = None
            \<and> cleared_before_close q (new_effects m (member_remove now m))"
    using fold_removePeer_all [OF assms(1) refl, of now q] assms(2) qin
    by (auto simp: member_remove_def getPeers_def new_effects_def)
  from part1 part2 part3 part4 show ?thesis by blast
qed

theorem streaming_peer_cleared_before_removal_witness:
  "wf_peers member_two_links \<and> streamingPeer member_two_links = Some 2
   \<and> 2 \<in> set (getPeers member_two_links)
   \<and> stream (removePeer 100 2 member_two_links) = None
   \<and> cleared_before_close 2 (new_effects member_two_links (removePeer 100 2 member_two_links))
   \<and> stream (member_remove 100 member_two_links) = None
   \<and> cleared_before_close 2 (new_effects member_two_links (member_remove 100 member_two_links))"
proof -
  have h: "wf_peers member_two_links" "streamingPeer member_two_links = Some 2"
    "2 \<in> set (getPeers member_two_links)" "\<not> outgoing member_two_links"
    by (simp_all add: wf_peers_def getPeers_def member_two_links_def)
  from streaming_peer_cleared_before_removal [OF h(1,2,3), of 100 1] h
  show ?thesis by simp
qed

subsection \<open>Joining a call\<close>

lemma cv_emit_fields [simp]:
  "joining (cv_emit e s) = joining s" "cls_joined (cv_emit e s) = cls_joined s"
  "outStream (cv_emit e s) = outStream s" "trackKind (cv_emit e s) = trackKind s"
  "trackEnded (cv_emit e s) = trackEnded s" "cv_log (cv_emit e s) = cv_log s @ [e]"
  "joinType (cv_emit e s) = joinType s" "cls_audio_only (cv_emit e s) = cls_audio_only s"
  by (simp_all add: cv_emit_def)

lemma strip_track_fields [simp]:
  "joining (strip_track t s) = joining s" "cls_joined (strip_track t s) = cls_joined s"
  "outStream (strip_track t s) = map_option (removeAll t) (outStream s)"
  "trackKind (strip_track t s) = trackKind s"
  "trackEnded (strip_track t s) = (trackEnded s)(t := True)"
  "cv_log (strip_track t s) = cv_log s @ [StreamRemoveTrack t, StopTrack t]"
  by (simp_all add: strip_track_def Let_def)

lemma fold_strip_fields:
  "joining (fold strip_track ts s) = joining s"
  "cls_joined (fold strip_track ts s) = cls_joined s"
  "trackKind (fold strip_track ts s) = trackKind s"
  by (induction ts arbitrary: s, simp_all)+

lemma fold_strip_log:
  "cv_log (fold strip_track ts s) = cv_log s @ concat (map (\<lambda>t. [StreamRemoveTrack t, StopTrack t]) ts)"
  by (induction ts arbitrary: s) simp_all

lemma fold_strip_ended:
  "trackEnded (fold strip_track ts s) t = (t \<in> set ts \<or> trackEnded s t)"
  by (induction ts arbitrary: s) auto

lemma fold_strip_stream:
  "outStream (fold strip_track ts s) = map_option (filter (\<lambda>t. t \<notin> set ts)) (outStream s)"
proof (induction ts arbitrary: s)
  case Nil
  then show ?case by (simp add: option.map_ident)
next
  case (Cons a ts)
  have "filter (\<lambda>t. t \<notin> set ts) (removeAll a xs) = filter (\<lambda>t. t \<noteq> a \<and> t \<notin> set ts) xs" for xs
    by (induction xs) auto
  then show ?case using Cons by (simp add: option.map_comp comp_def)
qed

lemma join_begin_joining:
  "joining s \<Longrightarrow> join_begin type s = (s\<lparr>cv_log := cv_log s @ [WarnAlreadyJoining]\<rparr>, Returned)"
  by (simp add: join_begin_def cv_emit_def)

lemma join_begin_awaiting:
  assumes "\<not> joining s" and "type = Some ''audio'' \<longrightarrow> outStream s \<noteq> None"
  shows "snd (join_begin type s) = Awaiting" and "joining (fst (join_begin type s))"
    and "cls_joined (fst (join_begin type s)) = cls_joined s"
    and "last (cv_log (fst (join_begin type s))) = SendJoin type"
  using assms by (auto simp: join_begin_def Let_def fold_strip_fields split: option.splits)

lemma join_begin_audio:
  assumes "\<not> joining s" and "outStream s = Some tracks"
  shows "outStream (fst (join_begin (Some ''audio'') s)) = Some (filter (\<lambda>t. trackKind s t \<noteq> ''video'') tracks)"
    and "trackEnded (fst (join_begin (Some ''audio'') s)) t = (t \<in> set (getVideoTracks s tracks) \<or> trackEnded s t)"
    and "cv_log (fst (join_begin (Some ''audio'') s)) =
           cv_log s @ concat (map (\<lambda>t. [StreamRemoveTrack t, StopTrack t]) (getVideoTracks s tracks))
             @ [OutViewUpdateStream, SendJoin (Some ''audio'')]"
proof -
  have "filter (\<lambda>t. t \<notin> set (getVideoTracks s tracks)) tracks = filter (\<lambda>t. trackKind s t \<noteq> ''video'') tracks"
    by (rule filter_cong) (auto simp: getVideoTracks_def)
  then show "outStream (fst (join_begin (Some ''audio'') s)) = Some (filter (\<lambda>t. trackKind s t \<noteq> ''video'') tracks)"
    using assms by (simp add: join_begin_def Let_def fold_strip_stream getVideoTracks_def)
  show "trackEnded (fst (join_begin (Some ''audio'') s)) t = (t \<in> set (getVideoTracks s tracks) \<or> trackEnded s t)"
    using assms by (simp add: join_begin_def Let_def fold_strip_ended getVideoTracks_def)
  show "cv_log (fst (join_begin (Some ''audio'') s)) =
           cv_log s @ concat (map (\<lambda>t. [StreamRemoveTrack t, StopTrack t]) (getVideoTracks s tracks))
             @ [OutViewUpdateStream, SendJoin (Some ''audio'')]"
    using assms by (simp add: join_begin_def Let_def fold_strip_log getVideoTracks_def)
qed

lemma join_resume_fields:
  "joining (fst (join_resume sent now s)) = False"
  "cls_joined (fst (join_resume sent now s)) = (sent \<or> cls_joined s)"
  "snd (join_resume sent now s) = (if sent then None else Some SendRejected)"
  "cv_log (fst (join_resume sent now s)) = cv_log s @ (if sent then [UpdateIncoming] else [])"
  by (simp_all add: join_resume_def setJoined_def clearIncoming_def cv_emit_def Let_def)

text \<open>
  What \<open>join\<close> does when the outgoing stream is there. A \<open>join\<close> called while another
  one is in progress returns at once: it sends nothing and changes nothing (it only logs a
  warning). An invocation that passes the guard, and that is not an audio-only join on a view
  without outgoing stream, sets the joining flag, reaches the send of the join announcement
  with the session not yet marked joined, and clears the flag when the send settles, whether
  it resolved or was rejected; the session is marked joined only on the resolved path, after
  the send. For an audio-only join every video track is removed from the outgoing stream and
  stopped before the announcement is sent.
\<close>

theorem join_noop_or_flag_cleared:
  "(joining s \<longrightarrow>
      join_begin type s = (s\<lparr>cv_log := cv_log s @ [WarnAlreadyJoining]\<rparr>, Returned)
      \<and> join type sent now s = (s\<lparr>cv_log := cv_log s @ [WarnAlreadyJoining]\<rparr>, None))
   \<and> (\<not> joining s \<and> (type = Some ''audio'' \<longrightarrow> outStream s \<noteq> None) \<longrightarrow>
        snd (join_begin type s) = Awaiting
      \<and> joining (fst (join_begin type s))
      \<and> cls_joined (fst (join_begin type s)) = cls_joined s
      \<and> last (cv_log (fst (join_begin type s))) = SendJoin type
      \<and> join type sent now s = join_resume sent now (fst (join_begin type s))
      \<and> joining (fst (join type sent now s)) = False
      \<and> cls_joined (fst (join type sent now s)) = (sent \<or> cls_joined s)
      \<and> snd (join type sent now s) = (if sent then None else Some SendRejected)
      \<and> cv_log (fst (join type sent now s)) =
            cv_log (fst (join_begin type s)) @ (if sent then [UpdateIncoming] else []))
   \<and> (\<not> joining s \<and> outStream s = Some tracks \<longrightarrow>
        outStream (fst (join_begin (Some ''audio'') s)) =
          Some (filter (\<lambda>t. trackKind s t \<noteq> ''video'') tracks)
      \<and> (\<forall>t \<in> set (getVideoTracks s tracks). trackEnded (fst (join_begin (Some ''audio'') s)) t)
      \<and> cv_log (fst (join_begin (Some ''audio'') s)) =
            cv_log s @ concat (map (\<lambda>t. [StreamRemoveTrack t, StopTrack t]) (getVideoTracks s tracks))
              @ [OutViewUpdateStream, SendJoin (Some ''audio'')])"
proof (intro conjI impI)
  assume j: "joining s"
  show "join_begin type s = (s\<lparr>cv_log := cv_log s @ [WarnAlreadyJoining]\<rparr>, Returned)"
    by (rule join_begin_joining [OF j])
  then show "join type sent now s = (s\<lparr>cv_log := cv_log s @ [WarnAlreadyJoining]\<rparr>, None)"
    by (simp add: join_def)
next
  assume a: "\<not> joining s \<and> (type = Some ''audio'' \<longrightarrow> outStream s \<noteq> None)"
  then have nj: "\<not> joining s" and st: "type = Some ''audio'' \<longrightarrow> outStream s \<noteq> None" by simp_all
  note aw = join_begin_awaiting [OF nj st]
  show "snd (join_begin type s) = Awaiting" "joining (fst (join_begin type s))"
    "cls_joined (fst (join_begin type s)) = cls_joined s"
    "last (cv_log (fst (join_begin type s))) = SendJoin type"
    by (rule aw)+
  show eq: "join type sent now s = join_resume sent now (fst (join_begin type s))"
    using aw(1) by (cases "join_begin type s") (simp add: join_def)
  show "joining (fst (join type sent now s)) = False"
    "cls_joined (fst (join type sent now s)) = (sent \<or> cls_joined s)"
    "snd (join type sent now s) = (if sent then None else Some SendRejected)"
    "cv_log (fst (join type sent now s)) =
            cv_log (fst (join_begin type s)) @ (if sent then [UpdateIncoming] else [])"
    unfolding eq by (simp_all only: join_resume_fields aw(3))
next
  assume a: "\<not> joining s \<and> outStream s = Some tracks"
  then have nj: "\<not> joining s" and st: "outStream s = Some tracks" by simp_all
  note au = join_begin_audio [OF nj st]
  show "outStream (fst (join_begin (Some ''audio'') s)) =
          Some (filter (\<lambda>t. trackKind s t \<noteq> ''video'') tracks)" by (rule au(1))
  show "\<forall>t \<in> set (getVideoTracks s tracks). trackEnded (fst (join_begin (Some ''audio'') s)) t"
    by (simp add: au(2))
  show "cv_log (fst (join_begin (Some ''audio'') s)) =
            cv_log s @ concat (map (\<lambda>t. [StreamRemoveTrack t, StopTrack t]) (getVideoTracks s tracks))
              @ [OutViewUpdateStream, SendJoin (Some ''audio'')]" by (rule au(3))
qed

theorem join_noop_or_flag_cleared_witness:
  "\<not> joining view_three_tracks \<and> outStream view_three_tracks = Some [1, 2, 3]
   \<and> joining (fst (join_begin (Some ''audio'') view_three_tracks))
   \<and> join_begin (Some ''video'') (fst (join_begin (Some ''audio'') view_three_tracks)) =
       ((fst (join_begin (Some ''audio'') view_three_tracks))
          \<lparr>cv_log := cv_log (fst (join_begin (Some ''audio'') view_three_tracks)) @ [WarnAlreadyJoining]\<rparr>,
        Returned)
   \<and> outStream (fst (join_begin (Some ''audio'') view_three_tracks)) = Some [1]
   \<and> cv_log (fst (join_begin (Some ''audio'') view_three_tracks)) =
       [StreamRemoveTrack 2, StopTrack 2, StreamRemoveTrack 3, StopTrack 3,
        OutViewUpdateStream, SendJoin (Some ''audio'')]
   \<and> joining (fst (join (Some ''audio'') False 5 view_three_tracks)) = False
   \<and> cls_joined (fst (join (Some ''audio'') True 5 view_three_tracks))"
proof -
  have h: "\<not> joining view_three_tracks" "outStream view_three_tracks = Some [1, 2, 3]"
    by (simp_all add: view_three_tracks_def)
  have k: "trackKind view_three_tracks = (\<lambda>t. if t = 1 then ''audio'' else ''video'')"
    "cv_log view_three_tracks = []" "cls_joined view_three_tracks = False"
    by (simp_all add: view_three_tracks_def)
  have j: "joining (fst (join_begin (Some ''audio'') view_three_tracks))"
    using join_noop_or_flag_cleared [of view_three_tracks "Some ''audio''" True 5 "[1, 2, 3]"] h by simp
  from join_noop_or_flag_cleared [of view_three_tracks "Some ''audio''" False 5 "[1, 2, 3]"]
    join_noop_or_flag_cleared [of view_three_tracks "Some ''audio''" True 5 "[1, 2, 3]"]
    join_noop_or_flag_cleared [of "fst (join_begin (Some ''audio'') view_three_tracks)" "Some ''video''" True 5 "[1]"]
    h j
  show ?thesis by (simp add: k getVideoTracks_def join_resume_fields)
qed

text \<open>
  Claim C8 fails on the code. An audio-only \<open>join\<close> on a view whose outgoing stream is
  not set passes the guard and sets the joining flag; reading the video tracks of the missing
  stream then throws, before the \<open>try\<close> block whose \<open>finally\<close> clears the flag is
  entered. The invocation completes by throwing: nothing was sent, the session is not marked
  joined, and the joining flag is still set. Every later \<open>join\<close> is then taken for a
  concurrent one and ignored, also once the outgoing stream has been bound.
\<close>

theorem join_audio_without_stream_keeps_flag:
  "join (Some ''audio'') True 5 view_unbound =
     (view_unbound\<lparr>joining := True, joinType := Some ''audio'', cls_audio_only := True\<rparr>,
      Some TypeError)
   \<and> joining view_unbound = False
   \<and> joining (fst (join (Some ''audio'') True 5 view_unbound)) = True
   \<and> cls_joined (fst (join (Some ''audio'') True 5 view_unbound)) = False
   \<and> cv_log (fst (join (Some ''audio'') True 5 view_unbound)) = []
   \<and> join (Some ''video'') True 6
        ((fst (join (Some ''audio'') True 5 view_unbound))\<lparr>outStream := Some [1, 2]\<rparr>) =
       (view_unbound\<lparr>joining := True, joinType := Some ''audio'', cls_audio_only := True,
          outStream := Some [1, 2], cv_log := [WarnAlreadyJoining]\<rparr>, None)"
  by (simp add: join_def join_begin_def view_unbound_def cv_emit_def)

subsection \<open>Replacing the outgoing track\<close>

lemma replace_transceivers_eq:
  "replace_transceivers track ts r =
     (map (\<lambda>t. if matching track t then replaceTrack track t else t) ts,
      r \<or> list_ex (matching track) ts)"
  by (induction ts arbitrary: r) auto

lemma replace_peers_error:
  "snd (replace_peers track ps) =
     (if list_all (list_ex (matching track)) ps then None else Some NoTransceivers)"
  by (induction ps) (auto simp: replace_transceivers_eq split: prod.splits)

lemma replace_peers_ok:
  "list_all (list_ex (matching track)) ps \<Longrightarrow>
     fst (replace_peers track ps) = map (map (\<lambda>t. if matching track t then replaceTrack track t else t)) ps"
  by (induction ps) (auto simp: replace_transceivers_eq split: prod.splits)

lemma replaceMembers_error:
  "snd (replaceMembersOutTrack track vs) =
     (if list_all (list_all (list_ex (matching track))) vs then None else Some NoTransceivers)"
proof (induction vs)
  case Nil
  then show ?case by simp
next
  case (Cons v vs)
  obtain v' e where p: "replace_peers track v = (v', e)" by (cases "replace_peers track v")
  with replace_peers_error [of track v]
  have e: "e = (if list_all (list_ex (matching track)) v then None else Some NoTransceivers)"
    by simp
  show ?case using p e Cons by (auto split: prod.splits)
qed

lemma replaceMembers_ok:
  "list_all (list_all (list_ex (matching track))) vs \<Longrightarrow>
     fst (replaceMembersOutTrack track vs) =
       map (map (map (\<lambda>t. if matching track t then replaceTrack track t else t))) vs"
proof (induction vs)
  case Nil
  then show ?case by simp
next
  case (Cons v vs)
  then have v: "list_all (list_ex (matching track)) v"
    and vs: "list_all (list_all (list_ex (matching track))) vs" by simp_all
  obtain v' e where p: "replace_peers track v = (v', e)" by (cases "replace_peers track v")
  from replace_peers_error [of track v] replace_peers_ok [OF v] p v
  have "e = None" "v' = map (map (\<lambda>t. if matching track t then replaceTrack track t else t)) v"
    by simp_all
  then show ?case using p Cons.IH [OF vs] by (auto split: prod.splits)
qed

text \<open>
  Claim C7, as the code has it. The flag \<open>replaced\<close> is kept per peer:
  \<open>replaceMembersOutTrack\<close> raises exactly when some peer of some member has no matching
  transceiver (not stopped, receiver track of the new track's kind), so it raises nothing
  when there is no peer at all. When every peer has a match, every matching transceiver of
  every peer gets the new track as its sender track and the direction send-receive, and the
  others are left as they were.
\<close>

theorem replaceMembersOutTrack_per_peer:
  "snd (replaceMembersOutTrack track views) =
     (if list_all (list_all (list_ex (matching track))) views then None else Some NoTransceivers)
   \<and> (list_all (list_all (list_ex (matching track))) views \<longrightarrow>
        fst (replaceMembersOutTrack track views) =
          map (map (map (\<lambda>t. if matching track t then replaceTrack track t else t))) views)
   \<and> direction (replaceTrack track t) = SendRecv
   \<and> senderTrack (replaceTrack track t) = Some (fst track)"
  by (simp add: replaceMembers_error replaceMembers_ok replaceTrack_def)

theorem replaceMembersOutTrack_per_peer_witness:
  "list_all (list_all (list_ex (matching (9, ''video'')))) [[[recv_audio, recv_video]], []]
   \<and> replaceMembersOutTrack (9, ''video'') [[[recv_audio, recv_video]], []] =
       ([[[recv_audio, recv_video\<lparr>direction := SendRecv, senderTrack := Some 9\<rparr>]], []], None)"
proof -
  have h: "list_all (list_all (list_ex (matching (9, ''video'')))) [[[recv_audio, recv_video]], []]"
    by (simp add: matching_def recv_audio_def recv_video_def)
  from replaceMembersOutTrack_per_peer [of "(9, ''video'')" "[[[recv_audio, recv_video]], []]"] h
  show ?thesis
    by (simp add: prod_eq_iff matching_def replaceTrack_def recv_audio_def recv_video_def)
qed

theorem replaceMembersOutTrack_counterexample:
  "matching_transceivers (9, ''video'') [[]] = []
   \<and> snd (replaceMembersOutTrack (9, ''video'') [[]]) = None
   \<and> matching_transceivers (9, ''video'') [[[recv_video], [recv_audio]]] = [recv_video]
   \<and> snd (replaceMembersOutTrack (9, ''video'') [[[recv_video], [recv_audio]]]) = Some NoTransceivers"
  by (simp add: matching_transceivers_def matching_def recv_audio_def recv_video_def)

subsection \<open>Presenter selection\<close>


















subsection \<open>Bandwidth shaping: the loops as list recursion\<close>

lemma scan_video_b:
  "startsWith l ''b='' \<Longrightarrow>
     scan_video bw (l # ls) =
       (take 1 ls @ fst (scan_video (lower_of (line_bps l) bw) (drop 1 ls)),
        snd (scan_video (lower_of (line_bps l) bw) (drop 1 ls)))"
  by (cases ls) (simp_all split: prod.splits)

lemma scan_video_m:
  "\<not> startsWith l ''b='' \<Longrightarrow> startsWith l ''m='' \<Longrightarrow> scan_video bw (l # ls) = (l # ls, bw)"
  by (cases ls) simp_all

lemma scan_video_other:
  "\<not> startsWith l ''b='' \<Longrightarrow> \<not> startsWith l ''m='' \<Longrightarrow>
     scan_video bw (l # ls) = (l # fst (scan_video bw ls), snd (scan_video bw ls))"
  by (cases ls) (simp_all split: prod.splits)

lemma scan_bitrates_video:
  "scan_bitrates sdp i (Some v) bw =
     (take i sdp @ fst (scan_video bw (drop i sdp)), Some v, snd (scan_video bw (drop i sdp)))"
proof (induction sdp i "Some v" bw rule: scan_bitrates.induct)
  case (1 sdp i bw)
  show ?case
  proof (cases "i < length sdp")
    case False
    then show ?thesis by (simp add: scan_bitrates.simps [of sdp i])
  next
    case True
    let ?line = "sdp ! i"
    let ?rest = "drop (Suc i) sdp"
    have d: "drop i sdp = ?line # ?rest" using True by (simp add: Cons_nth_drop_Suc)
    show ?thesis
    proof (cases "startsWith ?line ''b=''")
      case b: True
      let ?sdp' = "splice_out sdp i"
      let ?bw' = "lower_of (line_bps ?line) bw"
      have t: "take (i + 1) ?sdp' = take i sdp @ take 1 ?rest"
        using True by (simp add: splice_out_def)
      have dr: "drop (i + 1) ?sdp' = drop 1 ?rest"
        using True by (simp add: splice_out_def)
      have "scan_bitrates sdp i (Some v) bw = scan_bitrates ?sdp' (i + 1) (Some v) ?bw'"
        using True b by (simp add: scan_bitrates.simps [of sdp i] Let_def)
      also have "\<dots> = (take (i + 1) ?sdp' @ fst (scan_video ?bw' (drop (i + 1) ?sdp')), Some v,
                    snd (scan_video ?bw' (drop (i + 1) ?sdp')))"
        using "1.hyps"(1) [OF True refl _ b] by simp
      finally show ?thesis unfolding t dr d scan_video_b [OF b] by simp
    next
      case nb: False
      show ?thesis
      proof (cases "startsWith ?line ''m=''")
        case m: True
        have "scan_bitrates sdp i (Some v) bw = (sdp, Some v, bw)"
          using True nb m by (simp add: scan_bitrates.simps [of sdp i] Let_def)
        moreover have "take i sdp @ ?line # ?rest = sdp"
          using d by (metis append_take_drop_id)
        ultimately show ?thesis unfolding d scan_video_m [OF nb m] by simp
      next
        case nm: False
        have "scan_bitrates sdp i (Some v) bw = scan_bitrates sdp (i + 1) (Some v) bw"
          using True nb nm by (simp add: scan_bitrates.simps [of sdp i] Let_def)
        also have "\<dots> = (take (i + 1) sdp @ fst (scan_video bw (drop (i + 1) sdp)), Some v,
                    snd (scan_video bw (drop (i + 1) sdp)))"
          using "1.hyps"(2) [OF True refl _ nb nm] by simp
        finally show ?thesis unfolding d scan_video_other [OF nb nm]
          using True by (simp add: take_Suc_conv_app_nth)
      qed
    qed
  qed
qed

lemma scan_bitrates_lines:
  "scan_bitrates sdp i None bw =
     (case scan_lines i bw (drop i sdp) of (r, vo, b) \<Rightarrow> (take i sdp @ r, vo, b))"
proof (induction "length sdp - i" arbitrary: i)
  case 0
  then show ?case by (simp add: scan_bitrates.simps [of sdp i])
next
  case (Suc n)
  then have lt: "i < length sdp" and n: "n = length sdp - (i + 1)" by simp_all
  let ?line = "sdp ! i"
  have d: "drop i sdp = ?line # drop (Suc i) sdp" using lt by (simp add: Cons_nth_drop_Suc)
  show ?case
  proof (cases "startsWith ?line ''m=video''")
    case True
    have "scan_bitrates sdp i None bw = scan_bitrates sdp (i + 1) (Some (i + 1)) bw"
      using lt True by (simp add: scan_bitrates.simps [of sdp i] Let_def)
    then show ?thesis unfolding d scan_bitrates_video using lt True
      by (simp add: take_Suc_conv_app_nth split: prod.splits)
  next
    case False
    have "scan_bitrates sdp i None bw = scan_bitrates sdp (i + 1) None bw"
      using lt False by (simp add: scan_bitrates.simps [of sdp i] Let_def)
    then show ?thesis unfolding d Suc.hyps(1) [OF n] using lt False
      by (simp add: take_Suc_conv_app_nth split: prod.splits)
  qed
qed

lemma insert_bitrates_list:
  "insert_bitrates sdp i tias as = take i sdp @ insert_after_cin tias as (drop i sdp)"
proof (induction "length sdp - i" arbitrary: i)
  case 0
  then show ?case by (simp add: insert_bitrates.simps [of sdp i])
next
  case (Suc n)
  then have lt: "i < length sdp" and n: "n = length sdp - (i + 1)" by simp_all
  have d: "drop i sdp = sdp ! i # drop (Suc i) sdp" using lt by (simp add: Cons_nth_drop_Suc)
  show ?case
  proof (cases "startsWith (sdp ! i) ''c=IN''")
    case True
    have "insert_bitrates sdp i tias as = splice_in (splice_in sdp (i + 1) tias) (i + 2) as"
      using lt True by (simp add: insert_bitrates.simps [of sdp i])
    also have "\<dots> = take (i + 1) sdp @ tias # as # drop (i + 1) sdp"
      using lt by (simp add: splice_in_def)
    finally show ?thesis unfolding d using lt True by (simp add: take_Suc_conv_app_nth)
  next
    case False
    have "insert_bitrates sdp i tias as = insert_bitrates sdp (i + 1) tias as"
      using lt False by (simp add: insert_bitrates.simps [of sdp i])
    then show ?thesis unfolding d Suc.hyps(1) [OF n] using lt False
      by (simp add: take_Suc_conv_app_nth)
  qed
qed

lemma limit_lines_list:
  "limit_lines sdp0 bandwidth0 =
     (case scan_lines 0 bandwidth0 sdp0 of
        (sdp, videoOffset, bandwidth) \<Rightarrow>
          if \<not> falsy bandwidth then
            (case videoOffset of
               None \<Rightarrow> sdp
             | Some v \<Rightarrow> take v sdp @ insert_after_cin
                 (tias_line (Math_round (the bandwidth)))
                 (as_line (Math_round (the bandwidth / 1024))) (drop v sdp))
          else sdp)"
  by (simp add: limit_lines_def scan_bitrates_lines insert_bitrates_list Let_def split: prod.splits option.splits)

subsection \<open>Strings and numbers\<close>

lemma startsWith_append: "startsWith (p @ s) p"
  by (simp add: startsWith_def)

lemma startsWith_shorter: "startsWith l (p @ q) \<Longrightarrow> startsWith l p"
proof -
  assume "startsWith l (p @ q)"
  then have "take (length (p @ q)) l = p @ q" by (simp add: startsWith_def)
  then have "take (length p) (take (length (p @ q)) l) = take (length p) (p @ q)" by simp
  then show ?thesis by (simp add: startsWith_def min_def)
qed

lemma startsWith_head: "startsWith l (c # p) \<Longrightarrow> \<exists>t. l = c # t"
  by (cases l) (simp_all add: startsWith_def)

lemma startsWith_other_head: "startsWith l (c # p) \<Longrightarrow> c \<noteq> d \<Longrightarrow> \<not> startsWith l (d # q)"
  by (cases l) (auto simp add: startsWith_def)

lemma tias_is_b: "startsWith l ''b=TIAS:'' \<Longrightarrow> startsWith l ''b=''"
  using startsWith_shorter [of l "''b=''" "''TIAS:''"] by simp

lemma as_is_b: "startsWith l ''b=AS:'' \<Longrightarrow> startsWith l ''b=''"
  using startsWith_shorter [of l "''b=''" "''AS:''"] by simp

lemma mvideo_is_m: "startsWith l ''m=video'' \<Longrightarrow> startsWith l ''m=''"
  using startsWith_shorter [of l "''m=''" "''video''"] by simp

lemma cin_not_b: "startsWith l ''c=IN'' \<Longrightarrow> \<not> startsWith l ''b=''"
  using startsWith_other_head [of l "CHR ''c''" "''=IN''" "CHR ''b''" "''=''"] by simp

lemma cin_not_m: "startsWith l ''c=IN'' \<Longrightarrow> \<not> startsWith l ''m=''"
  using startsWith_other_head [of l "CHR ''c''" "''=IN''" "CHR ''m''" "''=''"] by simp

lemma b_not_m: "startsWith l ''b='' \<Longrightarrow> \<not> startsWith l ''m=''"
  using startsWith_other_head [of l "CHR ''b''" "''=''" "CHR ''m''" "''=''"] by simp

lemma b_not_cin: "startsWith l ''b='' \<Longrightarrow> \<not> startsWith l ''c=IN''"
  using startsWith_other_head [of l "CHR ''b''" "''=''" "CHR ''c''" "''=IN''"] by simp

lemma digit_cases: "d < 10 \<Longrightarrow> d \<in> {0, 1, 2, 3, 4, 5, 6, 7, 8, 9::nat}"
  by auto

lemma digit_roundtrip: "d < 10 \<Longrightarrow> digit_of_char (char_of_digit d) = Some d"
  using digit_cases [of d] by (auto simp: digit_of_char_def char_of_digit_def)

lemma digit_char_in: "d < 10 \<Longrightarrow> char_of_digit d \<in> set ''0123456789''"
  using digit_cases [of d] by (auto simp: char_of_digit_def)

lemma digits_value_append:
  "digits_value acc (xs @ ys) =
     (case digits_value acc xs of None \<Rightarrow> None | Some a \<Rightarrow> digits_value a ys)"
  by (induction xs arbitrary: acc) (simp_all split: option.splits)

lemma digits_value_dec: "digits_value 0 (dec n) = Some n"
proof (induction n rule: dec.induct)
  case (1 n)
  show ?case
  proof (cases "n < 10")
    case True
    then show ?thesis by (simp add: dec.simps [of n] digit_roundtrip)
  next
    case False
    then have "dec n = dec (n div 10) @ [char_of_digit (n mod 10)]" by (simp add: dec.simps [of n])
    then show ?thesis using 1 [OF False] by (simp add: digits_value_append digit_roundtrip)
  qed
qed

lemma set_dec: "set (dec n) \<subseteq> set ''0123456789''"
proof (induction n rule: dec.induct)
  case (1 n)
  show ?case
  proof (cases "n < 10")
    case True
    then show ?thesis using digit_char_in [of n] by (simp add: dec.simps [of n])
  next
    case False
    then have "dec n = dec (n div 10) @ [char_of_digit (n mod 10)]" by (simp add: dec.simps [of n])
    then show ?thesis using 1 [OF False] digit_char_in [of "n mod 10"] by simp
  qed
qed

lemma split_on_absent: "sep \<notin> set s \<Longrightarrow> split_on sep s = [s]"
  by (induction s) (auto simp: prepend_def)

lemma colon_not_in_dec: "CHR '':'' \<notin> set (dec n)"
  using set_dec [of n] by auto

lemma line_bps_tias: "line_bps (tias_line (int n)) = Some (of_nat n)"
  by (simp add: tias_line_def show_int_def line_bps_def startsWith_def split_on_absent colon_not_in_dec prepend_def second_def
      Number_def digits_value_dec js_times_def)

lemma line_bps_as: "line_bps (as_line (int k)) = Some (of_nat k * 1024)"
  by (simp add: as_line_def show_int_def line_bps_def startsWith_def split_on_absent colon_not_in_dec prepend_def second_def
      Number_def digits_value_dec js_times_def)

lemma Number_dec: "Number (Some (dec n)) = Some (of_nat n)"
  by (simp add: Number_def digits_value_dec)

lemma floor_half: "\<lfloor>1 / 2 :: rat\<rfloor> = 0"
  by (simp add: floor_eq_iff)

lemma Math_round_of_int: "Math_round (of_int n) = n"
proof -
  have "\<lfloor>of_int n + (1 / 2 :: rat)\<rfloor> = n + \<lfloor>1 / 2 :: rat\<rfloor>" by (rule int_add_floor [symmetric])
  then show ?thesis by (simp add: Math_round_def floor_half)
qed

lemma Math_round_of_nat: "Math_round (of_nat n) = int n"
  using Math_round_of_int [of "int n"] by simp

lemma Math_round_bounds: "Math_round x = k \<longleftrightarrow> of_int k - 1 / 2 \<le> x \<and> x < of_int k + 1 / 2"
  by (auto simp: Math_round_def floor_eq_iff)

lemma round_stable:
  fixes c :: rat
  assumes "of_int (Math_round c) < c"
  shows "Math_round (of_int (Math_round c) / 1024) = Math_round (c / 1024)"
proof -
  define r where "r = Math_round c"
  define k where "k = Math_round (of_int r / 1024)"
  have rb: "of_int r - 1 / 2 \<le> c" "c < of_int r + 1 / 2"
    using Math_round_bounds [of c r] by (simp_all add: r_def)
  have kb: "of_int k - 1 / 2 \<le> (of_int r :: rat) / 1024" "(of_int r :: rat) / 1024 < of_int k + 1 / 2"
    using Math_round_bounds [of "of_int r / 1024" k] by (simp_all add: k_def)
  from kb(2) have "(of_int r :: rat) < of_int (1024 * k + 512)" by simp
  then have "r < 1024 * k + 512" by (simp only: of_int_less_iff)
  then have "r + 1 \<le> 1024 * k + 512" by simp
  then have "(of_int (r + 1) :: rat) \<le> of_int (1024 * k + 512)" by (simp only: of_int_le_iff)
  then have up: "(of_int r :: rat) + 1 \<le> 1024 * of_int k + 512" by simp
  have lo: "1024 * (of_int k :: rat) - 512 \<le> of_int r" using kb(1) by simp
  have "of_int k - 1 / 2 \<le> c / 1024" using lo assms by (simp add: r_def)
  moreover have "c / 1024 < of_int k + 1 / 2" using up rb(2) by simp
  ultimately have "Math_round (c / 1024) = k" by (simp add: Math_round_bounds)
  then show ?thesis by (simp add: k_def r_def)
qed

lemma Math_round_pos: "1 / 2 \<le> c \<Longrightarrow> 1 \<le> Math_round c"
  by (simp add: Math_round_def le_floor_iff)

subsection \<open>Splitting and joining lines\<close>

lemma prepend_cons: "prepend c (p # ps) = (c # p) # ps"
  by (simp add: prepend_def)

lemma split_crlf_nonempty: "split_crlf s \<noteq> []"
  by (induction s rule: split_crlf.induct) (simp_all add: prepend_def split: list.splits)

lemma split_crlf_free: "crlf_free l \<Longrightarrow> split_crlf l = [l]"
  by (induction l rule: crlf_free.induct) (auto simp: prepend_def)

lemma split_crlf_line:
  "crlf_free l \<Longrightarrow> split_crlf (l @ CR # LF # rest) = l # split_crlf rest"
proof (induction l rule: crlf_free.induct)
  case 1
  then show ?case by simp
next
  case (2 c)
  have "CR \<noteq> LF" by (simp add: CR_def LF_def)
  then show ?case by (auto simp: prepend_def)
next
  case (3 c d cs)
  then show ?case by (auto simp: prepend_def)
qed

lemma split_join_crlf:
  "ls \<noteq> [] \<Longrightarrow> list_all crlf_free ls \<Longrightarrow> split_crlf (join_crlf ls) = ls"
proof (induction ls rule: join_crlf.induct)
  case 1
  then show ?case by simp
next
  case (2 l)
  then show ?case by (simp add: split_crlf_free)
next
  case (3 l m ls)
  then show ?case by (simp add: split_crlf_line)
qed

lemma crlf_free_prepend:
  "list_all crlf_free ps \<Longrightarrow> ps \<noteq> [] \<Longrightarrow> \<not> (c = CR \<and> (\<exists>t. hd ps = LF # t)) \<Longrightarrow>
     list_all crlf_free (prepend c ps)"
  by (cases ps; cases "hd ps") (auto simp: prepend_def)

lemma split_crlf_lines_free: "list_all crlf_free (split_crlf s)"
proof (induction s rule: split_crlf.induct)
  case 1
  then show ?case by simp
next
  case (2 c)
  then show ?case by simp
next
  case (3 c d cs)
  show ?case
  proof (cases "c = CR \<and> d = LF")
    case True
    then show ?thesis using 3 by simp
  next
    case False
    have hd: "\<exists>t. hd (split_crlf (d # cs)) = LF # t \<Longrightarrow> d = LF"
      by (cases cs) (auto simp: prepend_def split: if_splits list.splits)
    have "list_all crlf_free (prepend c (split_crlf (d # cs)))"
      by (rule crlf_free_prepend) (use 3 False hd split_crlf_nonempty in auto)
    then show ?thesis using False by auto
  qed
qed

lemma crlf_free_no_CR: "CR \<notin> set l \<Longrightarrow> crlf_free l"
  by (induction l rule: crlf_free.induct) auto

lemma crlf_free_dec: "crlf_free (p @ dec n)" if "CR \<notin> set p"
proof -
  have "CR \<notin> set (dec n)" using set_dec [of n] by (auto simp: CR_def)
  then show ?thesis using that by (simp add: crlf_free_no_CR)
qed

subsection \<open>The loops on structured input\<close>

lemma scan_video_plain:
  "list_all (\<lambda>l. \<not> startsWith l ''b='' \<and> \<not> startsWith l ''m='') s \<Longrightarrow>
     scan_video bw (s @ rest) = (s @ fst (scan_video bw rest), snd (scan_video bw rest))"
  by (induction s) (simp_all add: scan_video_other)

lemma scan_video_stop:
  "rest = [] \<or> startsWith (hd rest) ''m='' \<Longrightarrow> scan_video bw rest = (rest, bw)"
proof (cases rest)
  case Nil
  then show ?thesis by simp
next
  case (Cons m ms)
  assume "rest = [] \<or> startsWith (hd rest) ''m=''"
  with Cons have m: "startsWith m ''m=''" by simp
  then have "\<not> startsWith m ''b=''" using b_not_m by blast
  then show ?thesis using Cons m by (simp add: scan_video_m)
qed

lemma scan_video_clean:
  "list_all (\<lambda>l. \<not> startsWith l ''b='') (takeWhile (\<lambda>l. \<not> startsWith l ''m='') ls) \<Longrightarrow>
     scan_video bw ls = (ls, bw)"
proof (induction ls)
  case Nil
  then show ?case by simp
next
  case (Cons l ls)
  show ?case
  proof (cases "startsWith l ''m=''")
    case True
    then have "\<not> startsWith l ''b=''" using b_not_m by blast
    then show ?thesis using True by (simp add: scan_video_m)
  next
    case False
    with Cons.prems have nb: "\<not> startsWith l ''b=''"
      and rest: "list_all (\<lambda>l. \<not> startsWith l ''b='') (takeWhile (\<lambda>l. \<not> startsWith l ''m='') ls)"
      by simp_all
    from Cons.IH [OF rest] nb False show ?thesis by (simp add: scan_video_other)
  qed
qed

lemma scan_lines_pre:
  "list_all (\<lambda>l. \<not> startsWith l ''m=video'') pre \<Longrightarrow> startsWith mv ''m=video'' \<Longrightarrow>
     scan_lines i bw (pre @ mv # post) =
       (pre @ mv # fst (scan_video bw post), Some (i + length pre + 1), snd (scan_video bw post))"
  by (induction pre arbitrary: i) (simp_all split: prod.splits)

lemma scan_lines_no_video:
  "list_all (\<lambda>l. \<not> startsWith l ''m=video'') ls \<Longrightarrow> scan_lines i bw ls = (ls, None, bw)"
  by (induction ls arbitrary: i) simp_all

lemma insert_after_cin_skip:
  "list_all (\<lambda>l. \<not> startsWith l ''c=IN'') s \<Longrightarrow>
     insert_after_cin tias as (s @ rest) = s @ insert_after_cin tias as rest"
  by (induction s) simp_all

lemma insert_after_cin_hit:
  "list_ex (\<lambda>l. startsWith l ''c=IN'') s \<Longrightarrow>
     insert_after_cin tias as (s @ rest) = insert_after_cin tias as s @ rest"
  by (induction s) auto

lemma insert_after_cin_split:
  "list_ex (\<lambda>l. startsWith l ''c=IN'') s \<Longrightarrow>
     \<exists>a cin b. s = a @ cin # b \<and> list_all (\<lambda>l. \<not> startsWith l ''c=IN'') a \<and> startsWith cin ''c=IN''
       \<and> insert_after_cin tias as s = a @ cin # tias # as # b"
proof (induction s)
  case Nil
  then show ?case by simp
next
  case (Cons l s)
  show ?case
  proof (cases "startsWith l ''c=IN''")
    case True
    then have "l # s = [] @ l # s \<and> list_all (\<lambda>l. \<not> startsWith l ''c=IN'') [] \<and> startsWith l ''c=IN''
       \<and> insert_after_cin tias as (l # s) = [] @ l # tias # as # s" by simp
    then show ?thesis by blast
  next
    case False
    with Cons.prems have "list_ex (\<lambda>l. startsWith l ''c=IN'') s" by simp
    from Cons.IH [OF this] obtain a cin b where
      "s = a @ cin # b" "list_all (\<lambda>l. \<not> startsWith l ''c=IN'') a" "startsWith cin ''c=IN''"
      "insert_after_cin tias as s = a @ cin # tias # as # b" by blast
    then have "l # s = (l # a) @ cin # b \<and> list_all (\<lambda>l. \<not> startsWith l ''c=IN'') (l # a)
       \<and> startsWith cin ''c=IN'' \<and> insert_after_cin tias as (l # s) = (l # a) @ cin # tias # as # b"
      using False by simp
    then show ?thesis by blast
  qed
qed

lemma show_int_nat: "show_int (int n) = dec n"
  by (simp add: show_int_def)

lemma Math_round_kbps: "Math_round (of_nat B / 1024) = int ((B + 512) div 1024)"
proof -
  have "(of_nat B :: rat) / 1024 + 1 / 2 = of_nat (B + 512) / of_nat 1024" by simp
  then have "Math_round (of_nat B / 1024) = \<lfloor>(of_nat (B + 512) :: rat) / of_nat 1024\<rfloor>"
    by (simp only: Math_round_def)
  then show ?thesis by (simp only: floor_divide_of_nat_eq)
qed

lemma lower_of_declared:
  "0 < B \<Longrightarrow> of_nat B < C \<Longrightarrow> lower_of (Some (of_nat B)) (Some C) = Some (of_nat B)"
  by (simp add: lower_of_def js_less_def falsy_def)

lemma limit_lines_declared:
  assumes pre: "list_all (\<lambda>l. \<not> startsWith l ''m=video'') pre"
    and mv: "startsWith mv ''m=video''"
    and s12: "list_all (\<lambda>l. \<not> startsWith l ''b='' \<and> \<not> startsWith l ''m='') (s1 @ s2)"
    and bl: "startsWith bl ''b=''" "line_bps bl = Some (of_nat B)"
    and rest: "rest = [] \<or> startsWith (hd rest) ''m=''"
    and nonadj: "s2 \<noteq> [] \<or> rest = []"
    and pos: "0 < B" and lt: "of_nat B < C"
  shows "limit_lines (pre @ mv # s1 @ bl # s2 @ rest) (Some C) =
           pre @ mv # insert_after_cin (tias_line (int B)) (as_line (int ((B + 512) div 1024)))
             (s1 @ s2 @ rest)"
proof -
  have s1: "list_all (\<lambda>l. \<not> startsWith l ''b='' \<and> \<not> startsWith l ''m='') s1"
    and s2: "list_all (\<lambda>l. \<not> startsWith l ''b='' \<and> \<not> startsWith l ''m='') s2"
    using s12 by simp_all
  let ?bw = "lower_of (line_bps bl) (Some C)"
  have bw: "?bw = Some (of_nat B)" using bl(2) lower_of_declared [OF pos lt] by simp
  have after: "scan_video (Some C) (bl # s2 @ rest) = (s2 @ rest, ?bw)"
  proof (cases s2)
    case Nil
    with nonadj have "rest = []" by simp
    with Nil bl(1) show ?thesis by simp
  next
    case (Cons x xs)
    then have xs: "list_all (\<lambda>l. \<not> startsWith l ''b='' \<and> \<not> startsWith l ''m='') xs"
      using s2 by simp
    have "scan_video ?bw (xs @ rest) = (xs @ rest, ?bw)"
      by (simp add: scan_video_plain [OF xs] scan_video_stop [OF rest])
    then show ?thesis using Cons bl(1) by (simp add: scan_video_b)
  qed
  have "scan_video (Some C) (s1 @ bl # s2 @ rest) = (s1 @ s2 @ rest, ?bw)"
    by (simp add: scan_video_plain [OF s1] after)
  then have scan: "scan_lines 0 (Some C) (pre @ mv # s1 @ bl # s2 @ rest) =
      (pre @ mv # s1 @ s2 @ rest, Some (length pre + 1), Some (of_nat B))"
    by (simp add: scan_lines_pre [OF pre mv] bw)
  have nf: "\<not> falsy (Some (of_nat B :: rat))" using pos by (simp add: falsy_def)
  show ?thesis
    unfolding limit_lines_list scan
    using nf by (simp add: Math_round_of_nat Math_round_kbps)
qed

subsection \<open>Reading the video section\<close>

lemma video_section_eq:
  assumes "list_all (\<lambda>l. \<not> startsWith l ''m=video'') pre" and "startsWith mv ''m=video''"
    and "list_all (\<lambda>l. \<not> startsWith l ''m='') sec" and "rest = [] \<or> startsWith (hd rest) ''m=''"
  shows "video_section (pre @ mv # sec @ rest) = sec"
proof -
  have d: "dropWhile (\<lambda>l. \<not> startsWith l ''m=video'') (pre @ mv # sec @ rest) = mv # sec @ rest"
    using assms(1,2) by (induction pre) simp_all
  have "takeWhile (\<lambda>l. \<not> startsWith l ''m='') rest = []"
    using assms(4) by (cases rest) simp_all
  then have t: "takeWhile (\<lambda>l. \<not> startsWith l ''m='') (sec @ rest) = sec"
    using assms(3) by (induction sec) simp_all
  show ?thesis unfolding video_section_def d using t by simp
qed

lemma video_section_none:
  assumes "list_all (\<lambda>l. \<not> startsWith l ''m=video'') ls"
  shows "video_section ls = []"
proof -
  have d: "dropWhile (\<lambda>l. \<not> startsWith l ''m=video'') ls = []"
    using assms by (induction ls) simp_all
  show ?thesis unfolding video_section_def d by simp
qed

lemma tias_values_plain:
  "list_all (\<lambda>l. \<not> startsWith l ''b='') s \<Longrightarrow> tias_values s = []"
  by (induction s) (auto simp: tias_values_def dest: tias_is_b)

lemma as_values_plain:
  "list_all (\<lambda>l. \<not> startsWith l ''b='') s \<Longrightarrow> as_values s = []"
  by (induction s) (auto simp: as_values_def dest: as_is_b)

lemma tias_values_append: "tias_values (xs @ ys) = tias_values xs @ tias_values ys"
  by (simp add: tias_values_def)

lemma as_values_append: "as_values (xs @ ys) = as_values xs @ as_values ys"
  by (simp add: as_values_def)

lemma tias_values_Cons:
  "tias_values (l # ls) = (if startsWith l ''b=TIAS:'' then [Number (Some (drop 7 l))] else []) @ tias_values ls"
  by (simp add: tias_values_def)

lemma as_values_Cons:
  "as_values (l # ls) = (if startsWith l ''b=AS:'' then [Number (Some (drop 5 l))] else []) @ as_values ls"
  by (simp add: as_values_def)

lemma tias_line_starts:
  "startsWith (tias_line n) ''b=TIAS:''" "\<not> startsWith (tias_line n) ''b=AS:''"
  "startsWith (tias_line n) ''b=''" "\<not> startsWith (tias_line n) ''m=''"
  "\<not> startsWith (tias_line n) ''c=IN''" "drop 7 (tias_line n) = show_int n"
  by (simp_all add: startsWith_def tias_line_def)

lemma as_line_starts:
  "startsWith (as_line n) ''b=AS:''" "\<not> startsWith (as_line n) ''b=TIAS:''"
  "startsWith (as_line n) ''b=''" "\<not> startsWith (as_line n) ''m=''"
  "\<not> startsWith (as_line n) ''c=IN''" "drop 5 (as_line n) = show_int n"
  by (simp_all add: startsWith_def as_line_def)

lemma Number_show_int: "Number (Some (show_int (int n))) = Some (of_nat n)"
  by (simp add: show_int_def Number_dec)

lemma inserted_values:
  assumes "list_all (\<lambda>l. \<not> startsWith l ''b='') s" and "list_ex (\<lambda>l. startsWith l ''c=IN'') s"
  shows "tias_values (insert_after_cin (tias_line (int r)) (as_line (int k)) s) = [Some (of_nat r)]"
    and "as_values (insert_after_cin (tias_line (int r)) (as_line (int k)) s) = [Some (of_nat k)]"
proof -
  from insert_after_cin_split [OF assms(2), of "tias_line (int r)" "as_line (int k)"]
  obtain a cin b where s: "s = a @ cin # b"
    and ins: "insert_after_cin (tias_line (int r)) (as_line (int k)) s =
                a @ cin # tias_line (int r) # as_line (int k) # b" by blast
  from assms(1) s have p: "list_all (\<lambda>l. \<not> startsWith l ''b='') a" "\<not> startsWith cin ''b=''"
    "list_all (\<lambda>l. \<not> startsWith l ''b='') b" by simp_all
  have c: "\<not> startsWith cin ''b=TIAS:''" "\<not> startsWith cin ''b=AS:''"
    using p(2) tias_is_b as_is_b by blast+
  show "tias_values (insert_after_cin (tias_line (int r)) (as_line (int k)) s) = [Some (of_nat r)]"
    unfolding ins
    by (simp add: tias_values_append tias_values_Cons tias_values_plain [OF p(1)]
        tias_values_plain [OF p(3)] c tias_line_starts as_line_starts Number_show_int)
  show "as_values (insert_after_cin (tias_line (int r)) (as_line (int k)) s) = [Some (of_nat k)]"
    unfolding ins
    by (simp add: as_values_append as_values_Cons as_values_plain [OF p(1)]
        as_values_plain [OF p(3)] c tias_line_starts as_line_starts Number_show_int)
qed

lemma insert_after_cin_plain:
  "list_all (\<lambda>l. \<not> startsWith l ''m='') s \<Longrightarrow>
     list_all (\<lambda>l. \<not> startsWith l ''m='') (insert_after_cin (tias_line x) (as_line y) s)"
  by (induction s) (simp_all add: tias_line_starts as_line_starts)

lemma insert_after_cin_free:
  "crlf_free tias \<Longrightarrow> crlf_free as \<Longrightarrow> list_all crlf_free s \<Longrightarrow>
     list_all crlf_free (insert_after_cin tias as s)"
  by (induction s) simp_all

lemma crlf_free_tias: "crlf_free (tias_line (int n))"
  unfolding tias_line_def show_int_nat by (rule crlf_free_dec) (simp add: CR_def)

lemma crlf_free_as: "crlf_free (as_line (int n))"
  unfolding as_line_def show_int_nat by (rule crlf_free_dec) (simp add: CR_def)

subsection \<open>A declared bitrate below the ceiling\<close>

lemma limit_output_lines:
  assumes "out \<noteq> []" and "list_all crlf_free out"
    and "limit_lines (split_crlf (sd_sdp desc)) bw = out"
  shows "split_crlf (sd_sdp (limitSDPBandwidth desc bw)) = out"
  using assms by (simp add: limitSDPBandwidth_def split_join_crlf)

text \<open>
  Claim C3, as the code has it. Let the first video section of a description (the lines
  after the first \<open>m=video\<close> line, up to the next \<open>m=\<close> line or the end) hold a connection
  line (\<open>c=IN\<close>) and exactly one bitrate line. Let that line declare a whole number \<open>B\<close> of
  bits per second with \<open>0 < B < 2^53\<close>, so that the double holding it is exact (\<open>b=TIAS:B\<close>,
  or \<open>b=AS:k\<close> with \<open>B = 1024 k\<close>, the number in plain decimal), and let it not be directly
  followed by the next \<open>m=\<close> line: another line of the video section follows it, or it is
  the last line of the description. Let the ceiling \<open>C\<close> exceed \<open>B\<close>. Then the output is
  the input with that bitrate line removed and \<open>b=TIAS:B\<close>, \<open>b=AS:round(B/1024)\<close> put
  after the first connection line of the video section: the video section declares \<open>B\<close>,
  not \<open>C\<close>. An input declaring 500000 with ceiling 2000000 keeps 500000.
\<close>

theorem limitSDPBandwidth_keeps_declared_bitrate:
  assumes lines: "split_crlf (sd_sdp desc) = pre @ mv # s1 @ bl # s2 @ rest"
    and pre: "list_all (\<lambda>l. \<not> startsWith l ''m=video'') pre"
    and mv: "startsWith mv ''m=video''"
    and s12: "list_all (\<lambda>l. \<not> startsWith l ''b='' \<and> \<not> startsWith l ''m='') (s1 @ s2)"
    and cin: "list_ex (\<lambda>l. startsWith l ''c=IN'') (s1 @ s2)"
    and bl: "bl = tias_line (int B) \<or> (\<exists>k. B = 1024 * k \<and> bl = as_line (int k))"
    and rest: "rest = [] \<or> startsWith (hd rest) ''m=''"
    and nonadj: "s2 \<noteq> [] \<or> rest = []"
    and pos: "0 < B" and lt: "of_nat B < C" and exact: "B < 2 ^ 53"
  shows "split_crlf (sd_sdp (limitSDPBandwidth desc (Some C))) =
           pre @ mv # insert_after_cin (tias_line (int B)) (as_line (int ((B + 512) div 1024))) (s1 @ s2) @ rest
         \<and> video_bitrates (limitSDPBandwidth desc (Some C)) =
             ([Some (of_nat B)], [Some (of_nat ((B + 512) div 1024))])
         \<and> sd_type (limitSDPBandwidth desc (Some C)) = sd_type desc"
proof -
  let ?T = "tias_line (int B)"
  let ?A = "as_line (int ((B + 512) div 1024))"
  let ?sec = "insert_after_cin ?T ?A (s1 @ s2)"
  let ?out = "pre @ mv # ?sec @ rest"
  have blb: "startsWith bl ''b=''" "line_bps bl = Some (of_nat B)"
    using bl by (auto simp: tias_line_starts as_line_starts line_bps_tias line_bps_as)
  have "limit_lines (pre @ mv # s1 @ bl # s2 @ rest) (Some C) =
          pre @ mv # insert_after_cin ?T ?A (s1 @ s2 @ rest)"
    by (rule limit_lines_declared [OF pre mv s12 blb rest nonadj pos lt])
  also have "insert_after_cin ?T ?A (s1 @ s2 @ rest) = ?sec @ rest"
    using insert_after_cin_hit [OF cin, of ?T ?A rest] by simp
  finally have out: "limit_lines (split_crlf (sd_sdp desc)) (Some C) = ?out"
    by (simp add: lines)
  have free: "list_all crlf_free (pre @ mv # s1 @ bl # s2 @ rest)"
    using split_crlf_lines_free [of "sd_sdp desc"] by (simp add: lines)
  then have "list_all crlf_free (s1 @ s2)" by simp
  then have "list_all crlf_free ?sec"
    by (rule insert_after_cin_free [OF crlf_free_tias crlf_free_as])
  with free have ofree: "list_all crlf_free ?out" by simp
  have sp: "split_crlf (sd_sdp (limitSDPBandwidth desc (Some C))) = ?out"
    by (rule limit_output_lines [OF _ ofree out]) simp
  have nom: "list_all (\<lambda>l. \<not> startsWith l ''m='') ?sec"
    by (rule insert_after_cin_plain) (use s12 in \<open>simp add: list_all_iff\<close>)
  have vs: "video_section ?out = ?sec"
    by (rule video_section_eq [OF pre mv nom rest])
  have nob: "list_all (\<lambda>l. \<not> startsWith l ''b='') (s1 @ s2)"
    using s12 by (simp add: list_all_iff)
  have "video_bitrates (limitSDPBandwidth desc (Some C)) =
             ([Some (of_nat B)], [Some (of_nat ((B + 512) div 1024))])"
    unfolding video_bitrates_def sp vs by (simp add: inserted_values [OF nob cin])
  moreover have "sd_type (limitSDPBandwidth desc (Some C)) = sd_type desc"
    by (simp add: limitSDPBandwidth_def)
  ultimately show ?thesis using sp by simp
qed

lemma offer_500k_lines:
  "split_crlf (sd_sdp offer_500k) =
     [''v=0'', ''m=audio 9 RTP/AVP 0'', ''c=IN IP4 0.0.0.0'', ''a=mid:0''] @ ''m=video 9 RTP/AVP 96'' #
     [''c=IN IP4 0.0.0.0''] @ ''b=TIAS:500000'' # [''a=mid:1''] @ []"
  by (simp add: offer_500k_def CR_def LF_def prepend_def)

lemma dec_500000: "dec 500000 = ''500000''"
  by (simp add: dec.simps char_of_digit_def)

lemma dec_488: "dec 488 = ''488''"
  by (simp add: dec.simps char_of_digit_def)

lemmas sdp_eval = startsWith_def line_bps_def lower_of_def falsy_def js_less_def js_times_def
  Number_def second_def prepend_def digit_of_char_def video_section_def tias_values_def
  as_values_def

lemma offer_session_c_lines:
  "split_crlf (sd_sdp offer_session_c) =
     [''v=0'', ''c=IN IP4 0.0.0.0'', ''m=video 9 RTP/AVP 96'', ''b=TIAS:500000'', ''a=mid:0'']"
  by (simp add: offer_session_c_def CR_def LF_def prepend_def)

lemma offer_zero_lines:
  "split_crlf (sd_sdp offer_zero) =
     [''v=0'', ''m=video 9 RTP/AVP 96'', ''c=IN IP4 0.0.0.0'', ''b=TIAS:0'', ''a=mid:0'']"
  by (simp add: offer_zero_def CR_def LF_def prepend_def)

lemma cex_a: "video_bitrates offer_session_c = ([Some 500000], [])"
  unfolding video_bitrates_def offer_session_c_lines by (simp add: sdp_eval)

lemma cex_b: "limit_lines [''v=0'', ''c=IN IP4 0.0.0.0'', ''m=video 9 RTP/AVP 96'', ''b=TIAS:500000'', ''a=mid:0''] (Some 2000000)
   = [''v=0'', ''c=IN IP4 0.0.0.0'', ''m=video 9 RTP/AVP 96'', ''a=mid:0'']"
  unfolding limit_lines_list by (simp add: sdp_eval)

lemma cex_c: "limit_lines [''v=0'', ''m=video 9 RTP/AVP 96'', ''c=IN IP4 0.0.0.0'', ''b=TIAS:0'', ''a=mid:0''] (Some 2000000)
   = [''v=0'', ''m=video 9 RTP/AVP 96'', ''c=IN IP4 0.0.0.0'', ''a=mid:0'']"
  unfolding limit_lines_list by (simp add: sdp_eval)

text \<open>
  A bitrate line directly followed by the next media line: after \<open>sdp.splice(i, 1)\<close> the
  loop still increments \<open>i\<close>, the media line is passed over unread and the scan goes on
  into the audio section, whose lower bitrate is taken and whose bitrate line is removed.
\<close>

lemma limit_lines_bitrate_before_media_line:
  "limit_lines [''v=0'', ''m=video 9 RTP/AVP 96'', ''c=IN IP4 0.0.0.0'', ''b=TIAS:500000'',
                ''m=audio 9 RTP/AVP 0'', ''b=AS:64''] (Some 2000000)
   = [''v=0'', ''m=video 9 RTP/AVP 96'', ''c=IN IP4 0.0.0.0'', ''b=TIAS:65536'', ''b=AS:64'',
      ''m=audio 9 RTP/AVP 0'']"
proof -
  have r: "Math_round 65536 = 65536" "Math_round 64 = 64"
    using Math_round_of_int [of 65536] Math_round_of_int [of 64] by simp_all
  have d: "dec 65536 = ''65536''" "dec 64 = ''64''"
    by (simp_all add: dec.simps char_of_digit_def)
  show ?thesis
    unfolding limit_lines_list
    by (simp add: sdp_eval tias_line_def as_line_def show_int_def r d)
qed

theorem limitSDPBandwidth_declared_bitrate_counterexample:
  "video_bitrates offer_session_c = ([Some 500000], [])
   \<and> video_bitrates (limitSDPBandwidth offer_session_c (Some 2000000)) = ([], [])
   \<and> sd_sdp (limitSDPBandwidth offer_session_c (Some 2000000)) =
       join_crlf [''v=0'', ''c=IN IP4 0.0.0.0'', ''m=video 9 RTP/AVP 96'', ''a=mid:0'']
   \<and> video_bitrates offer_zero = ([Some 0], [])
   \<and> video_bitrates (limitSDPBandwidth offer_zero (Some 2000000)) = ([], [])"
proof -
  have a: "sd_sdp (limitSDPBandwidth offer_session_c (Some 2000000)) =
       join_crlf [''v=0'', ''c=IN IP4 0.0.0.0'', ''m=video 9 RTP/AVP 96'', ''a=mid:0'']"
    unfolding limitSDPBandwidth_def offer_session_c_lines cex_b by simp
  have b: "sd_sdp (limitSDPBandwidth offer_zero (Some 2000000)) =
       join_crlf [''v=0'', ''m=video 9 RTP/AVP 96'', ''c=IN IP4 0.0.0.0'', ''a=mid:0'']"
    unfolding limitSDPBandwidth_def offer_zero_lines cex_c by simp
  have sa: "split_crlf (join_crlf [''v=0'', ''c=IN IP4 0.0.0.0'', ''m=video 9 RTP/AVP 96'', ''a=mid:0''])
      = [''v=0'', ''c=IN IP4 0.0.0.0'', ''m=video 9 RTP/AVP 96'', ''a=mid:0'']"
    by (simp add: CR_def LF_def prepend_def)
  have sb: "split_crlf (join_crlf [''v=0'', ''m=video 9 RTP/AVP 96'', ''c=IN IP4 0.0.0.0'', ''a=mid:0''])
      = [''v=0'', ''m=video 9 RTP/AVP 96'', ''c=IN IP4 0.0.0.0'', ''a=mid:0'']"
    by (simp add: CR_def LF_def prepend_def)
  have "video_bitrates (limitSDPBandwidth offer_session_c (Some 2000000)) = ([], [])"
    unfolding video_bitrates_def a sa by (simp add: sdp_eval)
  moreover have "video_bitrates (limitSDPBandwidth offer_zero (Some 2000000)) = ([], [])"
    unfolding video_bitrates_def b sb by (simp add: sdp_eval)
  moreover have "video_bitrates offer_zero = ([Some 0], [])"
    unfolding video_bitrates_def offer_zero_lines by (simp add: sdp_eval)
  ultimately show ?thesis using a cex_a by simp
qed

theorem limitSDPBandwidth_keeps_declared_bitrate_witness:
  "split_crlf (sd_sdp (limitSDPBandwidth offer_500k (Some 2000000))) =
     [''v=0'', ''m=audio 9 RTP/AVP 0'', ''c=IN IP4 0.0.0.0'', ''a=mid:0'', ''m=video 9 RTP/AVP 96'',
      ''c=IN IP4 0.0.0.0'', ''b=TIAS:500000'', ''b=AS:488'', ''a=mid:1'']
   \<and> video_bitrates (limitSDPBandwidth offer_500k (Some 2000000)) = ([Some 500000], [Some 488])"
proof -
  have bl: "''b=TIAS:500000'' = tias_line (int 500000) \<or>
            (\<exists>k. (500000::nat) = 1024 * k \<and> ''b=TIAS:500000'' = as_line (int k))"
    by (simp add: tias_line_def show_int_def dec_500000)
  have t: "tias_line 500000 = ''b=TIAS:500000''" "as_line 488 = ''b=AS:488''"
    by (simp_all add: tias_line_def as_line_def show_int_def dec_500000 dec_488)
  from limitSDPBandwidth_keeps_declared_bitrate [OF offer_500k_lines _ _ _ _ bl, of 2000000]
  show ?thesis by (simp add: startsWith_def t)
qed

subsection \<open>Applying the function to its own output\<close>

lemma scan_video_subset: "set (fst (scan_video bw ls)) \<subseteq> set ls"
  by (induction bw ls rule: scan_video.induct) (auto split: prod.splits)

lemma scan_lines_subset: "set (fst (scan_lines i bw ls)) \<subseteq> set ls"
proof (induction ls arbitrary: i)
  case Nil
  then show ?case by simp
next
  case (Cons l ls)
  show ?case
  proof (cases "startsWith l ''m=video''")
    case True
    then show ?thesis using scan_video_subset [of bw ls] by (auto split: prod.splits)
  next
    case False
    then show ?thesis using Cons [of "i + 1"] by (auto split: prod.splits)
  qed
qed

lemma scan_lines_nonempty: "ls \<noteq> [] \<Longrightarrow> fst (scan_lines i bw ls) \<noteq> []"
  by (cases ls) (auto split: prod.splits)

lemma insert_after_cin_subset: "set (insert_after_cin tias as ls) \<subseteq> set ls \<union> {tias, as}"
  by (induction ls) auto

lemma insert_after_cin_nonempty: "ls \<noteq> [] \<Longrightarrow> insert_after_cin tias as ls \<noteq> []"
  by (cases ls) auto

lemma crlf_free_show_int: "CR \<notin> set (show_int i)"
  using set_dec [of "nat i"] set_dec [of "nat (- i)"] by (auto simp: show_int_def CR_def)

lemma crlf_free_lines: "crlf_free (tias_line i)" "crlf_free (as_line i)"
proof -
  have "CR \<notin> set (tias_line i)" "CR \<notin> set (as_line i)"
    using crlf_free_show_int [of i] by (simp_all add: tias_line_def as_line_def CR_def)
  then show "crlf_free (tias_line i)" "crlf_free (as_line i)"
    by (simp_all add: crlf_free_no_CR)
qed

lemma limit_lines_nonempty: "X \<noteq> [] \<Longrightarrow> limit_lines X bw \<noteq> []"
proof -
  assume X: "X \<noteq> []"
  obtain r vo b where sc: "scan_lines 0 bw X = (r, vo, b)" by (cases "scan_lines 0 bw X")
  from scan_lines_nonempty [OF X, of 0 bw] sc have r: "r \<noteq> []" by simp
  have "take v r @ insert_after_cin t a (drop v r) \<noteq> []" for v t a
    using r insert_after_cin_nonempty [of "drop v r" t a] by (cases "take v r") auto
  then show ?thesis using r by (simp add: limit_lines_list sc split: option.splits)
qed

lemma limit_lines_free: "list_all crlf_free X \<Longrightarrow> list_all crlf_free (limit_lines X bw)"
proof -
  assume X: "list_all crlf_free X"
  obtain r vo b where sc: "scan_lines 0 bw X = (r, vo, b)" by (cases "scan_lines 0 bw X")
  from scan_lines_subset [of 0 bw X] sc have "set r \<subseteq> set X" by simp
  with X have r: "list_all crlf_free r" by (auto simp: list_all_iff)
  have "list_all crlf_free (take v r @ insert_after_cin (tias_line t) (as_line a) (drop v r))" for v t a
  proof -
    have "list_all crlf_free (take v r)" "list_all crlf_free (drop v r)"
      using r by (auto simp: list_all_iff dest: in_set_takeD in_set_dropD)
    then show ?thesis
      using insert_after_cin_free [OF crlf_free_lines(1) crlf_free_lines(2), of "drop v r" t a] by simp
  qed
  then show ?thesis using r by (simp add: limit_lines_list sc split: option.splits)
qed

lemma limit_split:
  "split_crlf (sd_sdp (limitSDPBandwidth desc bw)) = limit_lines (split_crlf (sd_sdp desc)) bw"
  by (simp add: limitSDPBandwidth_def split_join_crlf limit_lines_nonempty limit_lines_free
      split_crlf_nonempty split_crlf_lines_free)

lemma video_section_decomp:
  "list_all (\<lambda>l. \<not> startsWith l ''m=video'') pre \<Longrightarrow> startsWith mv ''m=video'' \<Longrightarrow>
     video_section (pre @ mv # post) = takeWhile (\<lambda>l. \<not> startsWith l ''m='') post"
proof -
  assume "list_all (\<lambda>l. \<not> startsWith l ''m=video'') pre" "startsWith mv ''m=video''"
  then have d: "dropWhile (\<lambda>l. \<not> startsWith l ''m=video'') (pre @ mv # post) = mv # post"
    by (induction pre) simp_all
  show ?thesis unfolding video_section_def d by simp
qed

lemma first_video:
  "list_all (\<lambda>l. \<not> startsWith l ''m=video'') L \<or>
   (\<exists>pre mv post. L = pre @ mv # post \<and> list_all (\<lambda>l. \<not> startsWith l ''m=video'') pre
      \<and> startsWith mv ''m=video'')"
proof (cases "\<exists>l \<in> set L. startsWith l ''m=video''")
  case True
  from split_list_first_prop [OF True] show ?thesis by (auto simp: list_all_iff)
next
  case False
  then show ?thesis by (simp add: list_all_iff)
qed

lemma section_split:
  "\<exists>sec rest. post = sec @ rest \<and> sec = takeWhile (\<lambda>l. \<not> startsWith l ''m='') post
     \<and> list_all (\<lambda>l. \<not> startsWith l ''m='') sec \<and> (rest = [] \<or> startsWith (hd rest) ''m='')"
proof -
  let ?P = "\<lambda>l. \<not> startsWith l ''m=''"
  have "post = takeWhile ?P post @ dropWhile ?P post" by simp
  moreover have "list_all ?P (takeWhile ?P post)" by (auto simp: list_all_iff dest: set_takeWhileD)
  moreover have "dropWhile ?P post = [] \<or> startsWith (hd (dropWhile ?P post)) ''m=''"
    using hd_dropWhile [of ?P post] by auto
  ultimately show ?thesis by blast
qed

lemma limit_lines_clean:
  assumes pre: "list_all (\<lambda>l. \<not> startsWith l ''m=video'') pre" and mv: "startsWith mv ''m=video''"
    and sec: "list_all (\<lambda>l. \<not> startsWith l ''b='' \<and> \<not> startsWith l ''m='') sec"
    and rest: "rest = [] \<or> startsWith (hd rest) ''m=''"
  shows "limit_lines (pre @ mv # sec @ rest) bw =
           (if falsy bw then pre @ mv # sec @ rest
            else pre @ mv # insert_after_cin (tias_line (Math_round (the bw)))
                   (as_line (Math_round (the bw / 1024))) (sec @ rest))"
proof -
  have "scan_video bw (sec @ rest) = (sec @ rest, bw)"
    by (simp add: scan_video_plain [OF sec] scan_video_stop [OF rest])
  then have "scan_lines 0 bw (pre @ mv # sec @ rest) = (pre @ mv # sec @ rest, Some (length pre + 1), bw)"
    by (simp add: scan_lines_pre [OF pre mv])
  then show ?thesis by (simp add: limit_lines_list)
qed

lemma limit_lines_no_video:
  "list_all (\<lambda>l. \<not> startsWith l ''m=video'') L \<Longrightarrow> limit_lines L bw = L"
  by (simp add: limit_lines_list scan_lines_no_video)

lemma lower_of_rounded:
  fixes c :: rat
  assumes "1 / 2 \<le> c"
  defines "bw \<equiv> lower_of (Some (of_int (Math_round c))) (Some c)"
  shows "\<not> falsy bw" and "Math_round (the bw) = Math_round c"
    and "Math_round (the bw / 1024) = Math_round (c / 1024)"
proof -
  have r: "1 \<le> Math_round c" by (rule Math_round_pos [OF assms(1)])
  have c0: "c \<noteq> 0" using assms(1) by auto
  show "\<not> falsy bw" "Math_round (the bw) = Math_round c"
    "Math_round (the bw / 1024) = Math_round (c / 1024)"
    using r c0 round_stable [of c]
    by (auto simp: bw_def lower_of_def falsy_def js_less_def Math_round_of_int)
qed

lemma limit_lines_again:
  assumes pre: "list_all (\<lambda>l. \<not> startsWith l ''m=video'') pre" and mv: "startsWith mv ''m=video''"
    and a: "list_all (\<lambda>l. \<not> startsWith l ''b='' \<and> \<not> startsWith l ''m='') a"
    and anc: "list_all (\<lambda>l. \<not> startsWith l ''c=IN'') a"
    and cin: "startsWith cin ''c=IN''"
    and b: "list_all (\<lambda>l. \<not> startsWith l ''b='' \<and> \<not> startsWith l ''m='') b"
    and rest: "rest = [] \<or> startsWith (hd rest) ''m=''"
    and c: "1 / 2 \<le> c"
  shows "limit_lines (pre @ mv # a @ cin # tias_line (Math_round c) # as_line (Math_round (c / 1024)) # b @ rest)
           (Some c) =
         pre @ mv # a @ cin # tias_line (Math_round c) # as_line (Math_round (c / 1024))
           # as_line (Math_round (c / 1024)) # b @ rest"
proof -
  let ?T = "tias_line (Math_round c)"
  let ?A = "as_line (Math_round (c / 1024))"
  let ?bw = "lower_of (Some (of_int (Math_round c))) (Some c)"
  have r: "0 \<le> Math_round c" using Math_round_pos [OF c] by simp
  have "line_bps (tias_line (int (nat (Math_round c)))) = Some (of_nat (nat (Math_round c)))"
    by (rule line_bps_tias)
  then have lb: "line_bps ?T = Some (of_int (Math_round c))" using r by simp
  have ac: "list_all (\<lambda>l. \<not> startsWith l ''b='' \<and> \<not> startsWith l ''m='') (a @ [cin])"
    using a cin cin_not_b cin_not_m by simp
  have tail: "scan_video ?bw (b @ rest) = (b @ rest, ?bw)"
    by (simp add: scan_video_plain [OF b] scan_video_stop [OF rest])
  have "scan_video (Some c) (?T # ?A # b @ rest) = (?A # b @ rest, ?bw)"
    by (simp add: scan_video_b tias_line_starts lb tail)
  then have "scan_video (Some c) ((a @ [cin]) @ ?T # ?A # b @ rest) = ((a @ [cin]) @ ?A # b @ rest, ?bw)"
    by (simp only: scan_video_plain [OF ac] fst_conv snd_conv)
  then have sc: "scan_lines 0 (Some c) (pre @ mv # a @ cin # ?T # ?A # b @ rest) =
      (pre @ mv # a @ cin # ?A # b @ rest, Some (length pre + 1), ?bw)"
    by (simp add: scan_lines_pre [OF pre mv])
  have ins: "insert_after_cin ?T ?A (a @ cin # ?A # b @ rest) = a @ cin # ?T # ?A # ?A # b @ rest"
    using cin by (simp add: insert_after_cin_skip [OF anc])
  show ?thesis
    unfolding limit_lines_list sc
    using lower_of_rounded [OF c] ins by simp
qed

lemma insert_after_cin_head:
  "rest = [] \<or> startsWith (hd rest) ''m='' \<Longrightarrow>
     insert_after_cin tias as rest = [] \<or> startsWith (hd (insert_after_cin tias as rest)) ''m=''"
  by (cases rest) (auto dest: cin_not_m)

lemma sections_with_cin:
  assumes pre: "list_all (\<lambda>l. \<not> startsWith l ''m=video'') pre" and mv: "startsWith mv ''m=video''"
    and a: "list_all (\<lambda>l. \<not> startsWith l ''b='' \<and> \<not> startsWith l ''m='') a"
    and anc: "list_all (\<lambda>l. \<not> startsWith l ''c=IN'') a"
    and cin: "startsWith cin ''c=IN''"
    and b: "list_all (\<lambda>l. \<not> startsWith l ''b='' \<and> \<not> startsWith l ''m='') b"
    and rest: "rest = [] \<or> startsWith (hd rest) ''m=''"
    and c: "1 / 2 \<le> c"
  defines "T \<equiv> tias_line (Math_round c)" and "A \<equiv> as_line (Math_round (c / 1024))"
  defines "L \<equiv> pre @ mv # (a @ cin # b) @ rest"
  shows "video_section (limit_lines L (Some c)) = a @ cin # T # A # b"
    and "video_section (limit_lines (limit_lines L (Some c)) (Some c)) = a @ cin # T # A # A # b"
proof -
  have sec: "list_all (\<lambda>l. \<not> startsWith l ''b='' \<and> \<not> startsWith l ''m='') (a @ cin # b)"
    using a b cin cin_not_b cin_not_m by simp
  have nf: "\<not> falsy (Some c)" using c by (auto simp: falsy_def)
  have "insert_after_cin T A ((a @ cin # b) @ rest) = a @ cin # T # A # b @ rest"
    using cin by (simp add: insert_after_cin_skip [OF anc])
  then have L1: "limit_lines L (Some c) = pre @ mv # (a @ cin # T # A # b) @ rest"
    unfolding L_def limit_lines_clean [OF pre mv sec rest] using nf by (simp add: T_def A_def)
  have L2: "limit_lines (limit_lines L (Some c)) (Some c) = pre @ mv # (a @ cin # T # A # A # b) @ rest"
    unfolding L1 T_def A_def
    using limit_lines_again [OF pre mv a anc cin b rest c] by simp
  have n1: "list_all (\<lambda>l. \<not> startsWith l ''m='') (a @ cin # T # A # b)"
    using a b cin cin_not_m by (auto simp: T_def A_def tias_line_starts as_line_starts list_all_iff)
  have n2: "list_all (\<lambda>l. \<not> startsWith l ''m='') (a @ cin # T # A # A # b)"
    using a b cin cin_not_m by (auto simp: T_def A_def tias_line_starts as_line_starts list_all_iff)
  show "video_section (limit_lines L (Some c)) = a @ cin # T # A # b"
    unfolding L1 by (rule video_section_eq [OF pre mv n1 rest])
  show "video_section (limit_lines (limit_lines L (Some c)) (Some c)) = a @ cin # T # A # A # b"
    unfolding L2 by (rule video_section_eq [OF pre mv n2 rest])
qed

lemma values_with_cin:
  assumes a: "list_all (\<lambda>l. \<not> startsWith l ''b='' \<and> \<not> startsWith l ''m='') a"
    and cin: "startsWith cin ''c=IN''"
    and b: "list_all (\<lambda>l. \<not> startsWith l ''b='' \<and> \<not> startsWith l ''m='') b"
    and r: "0 \<le> r" and k: "0 \<le> k"
  shows "tias_values (a @ cin # tias_line r # as_line k # b) = [Some (of_int r)]"
    and "as_values (a @ cin # tias_line r # as_line k # b) = [Some (of_int k)]"
    and "tias_values (a @ cin # tias_line r # as_line k # as_line k # b) = [Some (of_int r)]"
    and "as_values (a @ cin # tias_line r # as_line k # as_line k # b) = [Some (of_int k), Some (of_int k)]"
proof -
  have pa: "list_all (\<lambda>l. \<not> startsWith l ''b='') a" and pb: "list_all (\<lambda>l. \<not> startsWith l ''b='') b"
    using a b by (simp_all add: list_all_iff)
  have c: "\<not> startsWith cin ''b=TIAS:''" "\<not> startsWith cin ''b=AS:''"
    using cin cin_not_b tias_is_b as_is_b by blast+
  have nr: "Number (Some (show_int r)) = Some (of_int r)"
    using Number_show_int [of "nat r"] r by simp
  have nk: "Number (Some (show_int k)) = Some (of_int k)"
    using Number_show_int [of "nat k"] k by simp
  note ev = tias_values_append tias_values_Cons tias_values_plain [OF pa] tias_values_plain [OF pb]
    as_values_append as_values_Cons as_values_plain [OF pa] as_values_plain [OF pb]
    c tias_line_starts as_line_starts nr nk
  show "tias_values (a @ cin # tias_line r # as_line k # b) = [Some (of_int r)]" by (simp add: ev)
  show "as_values (a @ cin # tias_line r # as_line k # b) = [Some (of_int k)]" by (simp add: ev)
  show "tias_values (a @ cin # tias_line r # as_line k # as_line k # b) = [Some (of_int r)]"
    by (simp add: ev)
  show "as_values (a @ cin # tias_line r # as_line k # as_line k # b) = [Some (of_int k), Some (of_int k)]"
    by (simp add: ev)
qed

lemma sections_without_cin:
  assumes pre: "list_all (\<lambda>l. \<not> startsWith l ''m=video'') pre" and mv: "startsWith mv ''m=video''"
    and sec: "list_all (\<lambda>l. \<not> startsWith l ''b='' \<and> \<not> startsWith l ''m='') sec"
    and nc: "list_all (\<lambda>l. \<not> startsWith l ''c=IN'') sec"
    and rest: "rest = [] \<or> startsWith (hd rest) ''m=''"
  defines "L \<equiv> pre @ mv # sec @ rest"
  shows "video_section (limit_lines L bw) = sec"
    and "video_section (limit_lines (limit_lines L bw) bw) = sec"
proof -
  let ?ins = "insert_after_cin (tias_line (Math_round (the bw))) (as_line (Math_round (the bw / 1024)))"
  have nm: "list_all (\<lambda>l. \<not> startsWith l ''m='') sec" using sec by (simp add: list_all_iff)
  have step: "limit_lines (pre @ mv # sec @ r) bw =
      (if falsy bw then pre @ mv # sec @ r else pre @ mv # sec @ ?ins r)"
    if "r = [] \<or> startsWith (hd r) ''m=''" for r
    using limit_lines_clean [OF pre mv sec that, of bw] by (simp add: insert_after_cin_skip [OF nc])
  have h1: "?ins rest = [] \<or> startsWith (hd (?ins rest)) ''m=''"
    by (rule insert_after_cin_head [OF rest])
  have h2: "?ins (?ins rest) = [] \<or> startsWith (hd (?ins (?ins rest))) ''m=''"
    by (rule insert_after_cin_head [OF h1])
  show "video_section (limit_lines L bw) = sec"
    unfolding L_def step [OF rest]
    using video_section_eq [OF pre mv nm rest] video_section_eq [OF pre mv nm h1] by simp
  show "video_section (limit_lines (limit_lines L bw) bw) = sec"
    unfolding L_def step [OF rest]
    using step [OF rest] step [OF h1] video_section_eq [OF pre mv nm rest]
      video_section_eq [OF pre mv nm h1] video_section_eq [OF pre mv nm h2] by simp
qed

text \<open>
  Claim C4, as the code has it. Let the video section of a description hold no bitrate
  line, and let the ceiling be absent, zero, or at least half a bit per second (as every
  whole number of bits per second is). Applying \<open>limitSDPBandwidth\<close> with that ceiling to
  its own output leaves the bitrate values of the video section as the first application
  set them: the same \<open>b=TIAS\<close> value, and the same \<open>b=AS\<close> value (the second output
  carries the first output's \<open>b=AS\<close> line once more, after the new pair). When the video
  section has a connection line these values are the rounded ceiling in bits per second and
  the ceiling divided by 1024, rounded.
\<close>

theorem limitSDPBandwidth_twice_same_bitrates:
  assumes C: "falsy C \<or> (\<exists>c. C = Some c \<and> 1 / 2 \<le> c)"
    and clean: "list_all (\<lambda>l. \<not> startsWith l ''b='') (video_section (split_crlf (sd_sdp desc)))"
  shows "fst (video_bitrates (limitSDPBandwidth (limitSDPBandwidth desc C) C)) =
           fst (video_bitrates (limitSDPBandwidth desc C))
         \<and> set (snd (video_bitrates (limitSDPBandwidth (limitSDPBandwidth desc C) C))) =
             set (snd (video_bitrates (limitSDPBandwidth desc C)))
         \<and> (\<not> falsy C \<and> list_ex (\<lambda>l. startsWith l ''c=IN'') (video_section (split_crlf (sd_sdp desc))) \<longrightarrow>
              video_bitrates (limitSDPBandwidth desc C) =
                ([Some (of_int (Math_round (the C)))], [Some (of_int (Math_round (the C / 1024)))]))"
proof -
  define L where "L = split_crlf (sd_sdp desc)"
  define L1 where "L1 = limit_lines L C"
  define L2 where "L2 = limit_lines L1 C"
  have vb1: "video_bitrates (limitSDPBandwidth desc C) =
      (tias_values (video_section L1), as_values (video_section L1))"
    by (simp add: video_bitrates_def limit_split L1_def L_def)
  have vb2: "video_bitrates (limitSDPBandwidth (limitSDPBandwidth desc C) C) =
      (tias_values (video_section L2), as_values (video_section L2))"
    by (simp add: video_bitrates_def limit_split L2_def L1_def L_def)
  have goal: "tias_values (video_section L2) = tias_values (video_section L1)
      \<and> set (as_values (video_section L2)) = set (as_values (video_section L1))
      \<and> (\<not> falsy C \<and> list_ex (\<lambda>l. startsWith l ''c=IN'') (video_section L) \<longrightarrow>
            tias_values (video_section L1) = [Some (of_int (Math_round (the C)))]
          \<and> as_values (video_section L1) = [Some (of_int (Math_round (the C / 1024)))])"
  proof -
    from first_video [of L] consider
        (none) "list_all (\<lambda>l. \<not> startsWith l ''m=video'') L"
      | (video) pre mv post where "L = pre @ mv # post"
          "list_all (\<lambda>l. \<not> startsWith l ''m=video'') pre" "startsWith mv ''m=video''"
      by blast
    then show ?thesis
    proof cases
      case none
      then have "L1 = L" "L2 = L" by (simp_all add: L1_def L2_def limit_lines_no_video)
      then show ?thesis using video_section_none [OF none] by simp
    next
      case video
      note pre = video(2) and mv = video(3)
      from section_split [of post] obtain sec rest where sr: "post = sec @ rest"
        "sec = takeWhile (\<lambda>l. \<not> startsWith l ''m='') post"
        "list_all (\<lambda>l. \<not> startsWith l ''m='') sec" "rest = [] \<or> startsWith (hd rest) ''m=''"
        by blast
      have vs: "video_section L = sec"
        unfolding video(1) video_section_decomp [OF pre mv] sr(2) ..
      have Leq: "L = pre @ mv # sec @ rest" using video(1) sr(1) by simp
      have sec: "list_all (\<lambda>l. \<not> startsWith l ''b='' \<and> \<not> startsWith l ''m='') sec"
        using clean sr(3) vs by (simp add: L_def list_all_iff)
      show ?thesis
      proof (cases "falsy C")
        case True
        then have "L1 = L" "L2 = L"
          using limit_lines_clean [OF pre mv sec sr(4), of C] by (simp_all add: L1_def L2_def Leq)
        then show ?thesis using True by simp
      next
        case False
        with C obtain c where c: "C = Some c" "1 / 2 \<le> c" by blast
        have r: "0 \<le> Math_round c" using Math_round_pos [OF c(2)] by simp
        have k: "0 \<le> Math_round (c / 1024)"
          using c(2) by (simp add: Math_round_def le_floor_iff)
        show ?thesis
        proof (cases "list_ex (\<lambda>l. startsWith l ''c=IN'') sec")
          case True
          from insert_after_cin_split [OF True, of "[]" "[]"] obtain a cin b where
            s: "sec = a @ cin # b" "list_all (\<lambda>l. \<not> startsWith l ''c=IN'') a"
            "startsWith cin ''c=IN''" by blast
          have a: "list_all (\<lambda>l. \<not> startsWith l ''b='' \<and> \<not> startsWith l ''m='') a"
            and b: "list_all (\<lambda>l. \<not> startsWith l ''b='' \<and> \<not> startsWith l ''m='') b"
            using sec s(1) by simp_all
          have Lc: "L = pre @ mv # (a @ cin # b) @ rest" using Leq s(1) by simp
          note secs = sections_with_cin [OF pre mv a s(2,3) b sr(4) c(2)]
          note vals = values_with_cin [OF a s(3) b r k]
          show ?thesis
            unfolding L2_def L1_def Lc c(1) secs using vals by simp
        next
          case False
          then have nc: "list_all (\<lambda>l. \<not> startsWith l ''c=IN'') sec"
            by (simp add: list_all_iff list_ex_iff)
          note secs = sections_without_cin [OF pre mv sec nc sr(4), of C]
          show ?thesis
            unfolding L2_def L1_def Leq secs using False vs Leq by simp
        qed
      qed
    qed
  qed
  show ?thesis unfolding vb1 vb2 using goal by (simp add: L_def)
qed

lemma offer_plain_lines:
  "split_crlf (sd_sdp offer_plain) =
     [''v=0'', ''m=video 9 RTP/AVP 96'', ''c=IN IP4 0.0.0.0'', ''a=mid:0'']"
  by (simp add: offer_plain_def CR_def LF_def prepend_def)

lemma offer_plain_section:
  "video_section (split_crlf (sd_sdp offer_plain)) = [''c=IN IP4 0.0.0.0'', ''a=mid:0'']"
  unfolding offer_plain_lines by (simp add: video_section_def startsWith_def)

theorem limitSDPBandwidth_twice_same_bitrates_witness:
  "list_all (\<lambda>l. \<not> startsWith l ''b='') (video_section (split_crlf (sd_sdp offer_plain)))
   \<and> video_bitrates (limitSDPBandwidth offer_plain (Some 2000000)) = ([Some 2000000], [Some 1953])
   \<and> fst (video_bitrates (limitSDPBandwidth (limitSDPBandwidth offer_plain (Some 2000000)) (Some 2000000)))
       = [Some 2000000]
   \<and> set (snd (video_bitrates (limitSDPBandwidth (limitSDPBandwidth offer_plain (Some 2000000)) (Some 2000000))))
       = {Some 1953}"
proof -
  have C: "falsy (Some 2000000) \<or> (\<exists>c. Some (2000000 :: rat) = Some c \<and> 1 / 2 \<le> c)" by simp
  have clean: "list_all (\<lambda>l. \<not> startsWith l ''b='') (video_section (split_crlf (sd_sdp offer_plain)))"
    unfolding offer_plain_section by (simp add: startsWith_def)
  have cin: "list_ex (\<lambda>l. startsWith l ''c=IN'') (video_section (split_crlf (sd_sdp offer_plain)))"
    unfolding offer_plain_section by (simp add: startsWith_def)
  have nf: "\<not> falsy (Some (2000000 :: rat))" by (simp add: falsy_def)
  have r: "Math_round 2000000 = 2000000" using Math_round_of_nat [of 2000000] by simp
  have k: "Math_round (15625 / 8) = 1953" by (simp add: Math_round_def floor_eq_iff)
  from limitSDPBandwidth_twice_same_bitrates [OF C clean] cin nf clean
  show ?thesis by (simp add: r k)
qed

lemma limit_plain_fraction:
  "limit_lines [''v=0'', ''m=video 9 RTP/AVP 96'', ''c=IN IP4 0.0.0.0'', ''a=mid:0''] (Some (3 / 10)) =
     [''v=0'', ''m=video 9 RTP/AVP 96'', ''c=IN IP4 0.0.0.0'', ''b=TIAS:0'', ''b=AS:0'', ''a=mid:0'']"
proof -
  have r: "Math_round (3 / 10) = 0" "Math_round (3 / 10240) = 0"
    by (simp_all add: Math_round_def floor_eq_iff)
  have l: "tias_line 0 = ''b=TIAS:0''" "as_line 0 = ''b=AS:0''"
    by (simp_all add: tias_line_def as_line_def show_int_def dec.simps char_of_digit_def)
  have nf: "falsy (Some (3 / 10)) = False" by (simp add: falsy_def)
  have sc: "scan_lines 0 (Some (3 / 10)) [''v=0'', ''m=video 9 RTP/AVP 96'', ''c=IN IP4 0.0.0.0'', ''a=mid:0''] =
      ([''v=0'', ''m=video 9 RTP/AVP 96'', ''c=IN IP4 0.0.0.0'', ''a=mid:0''], Some 2, Some (3 / 10))"
    by (simp add: startsWith_def)
  show ?thesis unfolding limit_lines_list sc by (simp add: nf r l startsWith_def)
qed

lemma limit_plain_fraction_again:
  "limit_lines [''v=0'', ''m=video 9 RTP/AVP 96'', ''c=IN IP4 0.0.0.0'', ''b=TIAS:0'', ''b=AS:0'', ''a=mid:0'']
     (Some (3 / 10)) =
     [''v=0'', ''m=video 9 RTP/AVP 96'', ''c=IN IP4 0.0.0.0'', ''b=AS:0'', ''a=mid:0'']"
proof -
  have lb: "line_bps ''b=TIAS:0'' = Some 0"
    by (simp add: line_bps_def startsWith_def prepend_def second_def Number_def digit_of_char_def
        js_times_def)
  have lo: "lower_of (Some 0) (Some (3 / 10)) = Some 0"
    by (simp add: lower_of_def js_less_def falsy_def)
  have sc: "scan_lines 0 (Some (3 / 10))
      [''v=0'', ''m=video 9 RTP/AVP 96'', ''c=IN IP4 0.0.0.0'', ''b=TIAS:0'', ''b=AS:0'', ''a=mid:0''] =
      ([''v=0'', ''m=video 9 RTP/AVP 96'', ''c=IN IP4 0.0.0.0'', ''b=AS:0'', ''a=mid:0''], Some 2, Some 0)"
    by (simp add: startsWith_def lb lo)
  show ?thesis unfolding limit_lines_list sc by (simp add: falsy_def)
qed

theorem limitSDPBandwidth_twice_counterexample:
  "video_bitrates offer_plain = ([], [])
   \<and> video_bitrates (limitSDPBandwidth offer_plain (Some (3 / 10))) = ([Some 0], [Some 0])
   \<and> video_bitrates (limitSDPBandwidth (limitSDPBandwidth offer_plain (Some (3 / 10))) (Some (3 / 10)))
       = ([], [Some 0])"
proof -
  have "video_bitrates offer_plain = ([], [])"
    unfolding video_bitrates_def offer_plain_lines by (simp add: sdp_eval)
  moreover have "video_bitrates (limitSDPBandwidth offer_plain (Some (3 / 10))) = ([Some 0], [Some 0])"
    unfolding video_bitrates_def limit_split offer_plain_lines limit_plain_fraction
    by (simp add: sdp_eval)
  moreover have "video_bitrates (limitSDPBandwidth (limitSDPBandwidth offer_plain (Some (3 / 10))) (Some (3 / 10)))
       = ([], [Some 0])"
    unfolding video_bitrates_def limit_split offer_plain_lines limit_plain_fraction
      limit_plain_fraction_again
    by (simp add: sdp_eval)
  ultimately show ?thesis by simp
qed

subsection \<open>Serialized handshakes\<close>

lemma queue_key_inj:
  "queue_key i = queue_key j \<longleftrightarrow> inv_op i = inv_op j \<and> inv_addr i = inv_addr j"
  by (cases "inv_op i"; cases "inv_op j") (auto simp: queue_key_def)

lemma same_key_refl [simp]: "same_key i i"
  by (simp add: same_key_def)

lemma same_key_sym: "same_key i j = same_key j i"
  by (auto simp: same_key_def)

lemma same_key_trans: "same_key i j \<Longrightarrow> same_key j k \<Longrightarrow> same_key i k"
  by (simp add: same_key_def)

lemma find_holds: "find P xs = Some x \<Longrightarrow> P x"
  by (induction xs) (auto split: if_splits)

lemma filter_remove1_first:
  "find P xs = Some x \<Longrightarrow> filter P (remove1 x xs) = tl (filter P xs)"
proof (induction xs)
  case Nil
  then show ?case by simp
next
  case (Cons a xs)
  show ?case
  proof (cases "P a")
    case True
    with Cons.prems show ?thesis by simp
  next
    case False
    with Cons.prems have f: "find P xs = Some x" by simp
    from find_holds [OF f] False have "x \<noteq> a" by auto
    with Cons.IH [OF f] False show ?thesis by simp
  qed
qed

lemma filter_remove1_other:
  "\<not> P x \<Longrightarrow> filter P (remove1 x xs) = filter P xs"
  by (induction xs) auto

lemma find_first:
  "find P xs = Some x \<Longrightarrow> P x \<and> x \<in> set xs \<and> filter P xs = x # tl (filter P xs)"
  by (induction xs) (auto split: if_splits)

lemma in_remove1: "y \<in> set (remove1 x xs) \<Longrightarrow> y \<in> set xs"
  using set_remove1_subset [of x xs] by blast

lemma distinct_map_remove1: "distinct (map f xs) \<Longrightarrow> distinct (map f (remove1 x xs))"
proof (induction xs)
  case Nil
  then show ?case by simp
next
  case (Cons a xs)
  then have "f a \<notin> f ` set (remove1 x xs)" using in_remove1 [of _ x xs] by auto
  with Cons show ?case by simp
qed

lemma key_gone:
  "distinct (map f xs) \<Longrightarrow> x \<in> set xs \<Longrightarrow> f x \<notin> f ` set (remove1 x xs)"
proof (induction xs)
  case Nil
  then show ?case by simp
next
  case (Cons a xs)
  show ?case
  proof (cases "x = a")
    case True
    with Cons.prems(1) show ?thesis by simp
  next
    case False
    with Cons.prems have xin: "x \<in> set xs" and d: "distinct (map f xs)" and a: "f a \<notin> f ` set xs"
      by simp_all
    from xin a have "f x \<noteq> f a" by (metis imageI)
    with Cons.IH [OF d xin] False show ?thesis by simp
  qed
qed

lemma sched_inv_idle: "sched_inv idle"
  by (simp add: sched_inv_def idle_def)

lemma sched_inv_queueAsync:
  assumes "sched_inv s"
  shows "sched_inv (queueAsync i s)"
proof -
  from assms have D: "distinct (map queue_key (running s))"
    and W: "\<forall>w \<in> set (waiting s). \<exists>r \<in> set (running s). same_key w r"
    and F: "\<And>j. filter (same_key j) (started s) @ filter (same_key j) (waiting s)
                = filter (same_key j) (invoked s)"
    by (auto simp: sched_inv_def list_all_iff list_ex_iff)
  show ?thesis
  proof (cases "list_ex (same_key i) (running s @ waiting s)")
    case True
    then obtain x where x: "x \<in> set (running s) \<union> set (waiting s)" "same_key i x"
      by (auto simp: list_ex_iff)
    have "\<exists>r \<in> set (running s). same_key i r"
    proof (cases "x \<in> set (running s)")
      case True
      with x(2) show ?thesis by blast
    next
      case False
      with x(1) W obtain r where "r \<in> set (running s)" "same_key x r" by blast
      with x(2) same_key_trans show ?thesis by blast
    qed
    then have W': "\<forall>w \<in> set (waiting s @ [i]). \<exists>r \<in> set (running s). same_key w r"
      using W by auto
    have F': "filter (same_key j) (started s) @ filter (same_key j) (waiting s @ [i])
                = filter (same_key j) (invoked s @ [i])" for j
      using F [of j] by simp
    show ?thesis using True D W' F'
      by (simp add: sched_inv_def queueAsync_def list_all_iff list_ex_iff)
  next
    case False
    then have none: "\<forall>x \<in> set (running s) \<union> set (waiting s). \<not> same_key i x"
      by (auto simp: list_ex_iff)
    have D': "distinct (map queue_key (running s @ [i]))"
      using D none by (auto simp: same_key_def)
    have W': "\<forall>w \<in> set (waiting s). \<exists>r \<in> set (running s @ [i]). same_key w r"
      using W by auto
    have F': "filter (same_key j) (started s @ [i]) @ filter (same_key j) (waiting s)
                = filter (same_key j) (invoked s @ [i])" for j
    proof (cases "same_key j i")
      case True
      have "\<forall>x \<in> set (waiting s). \<not> same_key j x"
      proof
        fix x assume "x \<in> set (waiting s)"
        with none have "\<not> same_key i x" by simp
        with True show "\<not> same_key j x" by (auto simp: same_key_def)
      qed
      then have "filter (same_key j) (waiting s) = []" by (simp add: filter_empty_conv)
      with F [of j] True show ?thesis by simp
    next
      case False
      with F [of j] show ?thesis by simp
    qed
    show ?thesis using False D' W' F'
      by (simp add: sched_inv_def queueAsync_def list_all_iff list_ex_iff)
  qed
qed

lemma sched_inv_finish:
  assumes "sched_inv s"
  shows "sched_inv (finish_invocation i s)"
proof (cases "i \<in> set (running s)")
  case False
  then show ?thesis using assms by (simp add: finish_invocation_def)
next
  case run: True
  from assms have D: "distinct (map queue_key (running s))"
    and W: "\<forall>w \<in> set (waiting s). \<exists>r \<in> set (running s). same_key w r"
    and F: "\<And>j. filter (same_key j) (started s) @ filter (same_key j) (waiting s)
                = filter (same_key j) (invoked s)"
    by (auto simp: sched_inv_def list_all_iff list_ex_iff)
  have D1: "distinct (map queue_key (remove1 i (running s)))"
    by (rule distinct_map_remove1 [OF D])
  have gone: "queue_key i \<notin> queue_key ` set (remove1 i (running s))"
    by (rule key_gone [OF D run])
  have keep: "r \<in> set (remove1 i (running s))" if "r \<in> set (running s)" "\<not> same_key r i" for r
  proof -
    from that(2) have "r \<noteq> i" by auto
    with that(1) show ?thesis by simp
  qed
  show ?thesis
  proof (cases "find (same_key i) (waiting s)")
    case None
    then have nw: "\<forall>w \<in> set (waiting s). \<not> same_key i w" by (auto simp: find_None_iff)
    have W': "\<forall>w \<in> set (waiting s). \<exists>r \<in> set (remove1 i (running s)). same_key w r"
    proof
      fix w assume w: "w \<in> set (waiting s)"
      with W obtain r where r: "r \<in> set (running s)" "same_key w r" by blast
      have "\<not> same_key r i"
      proof
        assume "same_key r i"
        with r(2) have "same_key i w" by (auto simp: same_key_def)
        with nw w show False by blast
      qed
      from keep [OF r(1) this] r(2) show "\<exists>r \<in> set (remove1 i (running s)). same_key w r" by blast
    qed
    show ?thesis using run None D1 W' F
      by (simp add: sched_inv_def finish_invocation_def list_all_iff list_ex_iff)
  next
    case (Some nxt)
    from find_first [OF Some] have nk: "same_key i nxt" and nin: "nxt \<in> set (waiting s)" by simp_all
    have D': "distinct (map queue_key (remove1 i (running s) @ [nxt]))"
      using D1 gone nk by (auto simp: same_key_def)
    have W': "\<forall>w \<in> set (remove1 nxt (waiting s)). \<exists>r \<in> set (remove1 i (running s) @ [nxt]). same_key w r"
    proof
      fix w assume "w \<in> set (remove1 nxt (waiting s))"
      then have w: "w \<in> set (waiting s)" by (rule in_remove1)
      with W obtain r where r: "r \<in> set (running s)" "same_key w r" by blast
      show "\<exists>r \<in> set (remove1 i (running s) @ [nxt]). same_key w r"
      proof (cases "same_key r i")
        case True
        with r(2) nk have "same_key w nxt" by (auto simp: same_key_def)
        then show ?thesis by auto
      next
        case False
        from keep [OF r(1) False] r(2) show ?thesis by auto
      qed
    qed
    have F': "filter (same_key j) (started s @ [nxt]) @ filter (same_key j) (remove1 nxt (waiting s))
                = filter (same_key j) (invoked s)" for j
    proof (cases "same_key j nxt")
      case True
      then have "same_key j = same_key i" using nk by (auto simp: same_key_def fun_eq_iff)
      with Some have f: "find (same_key j) (waiting s) = Some nxt" by simp
      from filter_remove1_first [OF f] find_first [OF f] F [of j] True
      show ?thesis by simp
    next
      case False
      with F [of j] show ?thesis by (simp add: filter_remove1_other)
    qed
    show ?thesis using run Some D' W' F'
      by (simp add: sched_inv_def finish_invocation_def list_all_iff list_ex_iff)
  qed
qed

lemma sched_inv_fold: "sched_inv s \<Longrightarrow> sched_inv (fold sched_step evs s)"
proof (induction evs arbitrary: s)
  case Nil
  then show ?case by simp
next
  case (Cons e evs)
  have "sched_inv (sched_step e s)"
    using Cons.prems by (cases e) (simp_all add: sched_inv_queueAsync sched_inv_finish)
  from Cons.IH [OF this] show ?case by simp
qed

lemma sched_inv_run: "sched_inv (sched_run evs)"
  unfolding sched_run_def by (rule sched_inv_fold [OF sched_inv_idle])

lemma same_key_fun: "same_key i = (\<lambda>j. inv_op j = inv_op i \<and> inv_addr j = inv_addr i)"
  by (rule ext) (simp add: same_key_def queue_key_inj)

lemma t3: "queue_key (n, Establish, addr) \<noteq> queue_key (m, AcceptOffer, addr')"
  by (simp add: queue_key_inj inv_op_def)

lemma t4: "\<not> list_ex (\<lambda>j. inv_op j = inv_op i \<and> inv_addr j = inv_addr i) (running s @ waiting s) \<longrightarrow>
         running (queueAsync i s) = running s @ [i]"
  by (simp add: queueAsync_def same_key_fun)

text \<open>
  Claim C1, as the code has it. The two operations queue under different keys,
  \<open>call-establish-<addr>\<close> and \<open>call-accept-offer-<addr>\<close>. So for every member
  address at most one \<open>establish\<close> and at most one \<open>acceptOffer\<close> is in flight at a
  time, and the invocations of one operation for one address begin in the order in which
  they were made, each after the one before it has completed; an \<open>establish\<close> and an
  \<open>acceptOffer\<close> for the same address never share a key, and an invocation begins at once
  when no invocation of its own operation and address is pending.
\<close>

theorem handshake_serialized_per_operation:
  "(\<forall>i \<in> set (running (sched_run evs)). \<forall>j \<in> set (running (sched_run evs)).
       inv_op i = inv_op j \<and> inv_addr i = inv_addr j \<longrightarrow> i = j)
   \<and> prefix (filter (\<lambda>j. inv_op j = op \<and> inv_addr j = addr) (started (sched_run evs)))
             (filter (\<lambda>j. inv_op j = op \<and> inv_addr j = addr) (invoked (sched_run evs)))
   \<and> queue_key (n, Establish, addr) \<noteq> queue_key (m, AcceptOffer, addr')
   \<and> (\<not> list_ex (\<lambda>j. inv_op j = inv_op i \<and> inv_addr j = inv_addr i) (running s @ waiting s) \<longrightarrow>
         running (queueAsync i s) = running s @ [i])"
proof (intro conjI)
  let ?s = "sched_run evs"
  have inv: "sched_inv ?s" by (rule sched_inv_run)
  have D: "distinct (map queue_key (running ?s))"
    using inv unfolding sched_inv_def by blast
  have F: "filter (same_key j) (started ?s) @ filter (same_key j) (waiting ?s)
                = filter (same_key j) (invoked ?s)" for j
    using inv unfolding sched_inv_def by blast
  from D have inj: "inj_on queue_key (set (running ?s))" by (simp add: distinct_map)
  show "\<forall>i \<in> set (running ?s). \<forall>j \<in> set (running ?s).
       inv_op i = inv_op j \<and> inv_addr i = inv_addr j \<longrightarrow> i = j"
  proof (intro ballI impI)
    fix i j
    assume i: "i \<in> set (running ?s)" and j: "j \<in> set (running ?s)"
      and e: "inv_op i = inv_op j \<and> inv_addr i = inv_addr j"
    from e have "queue_key i = queue_key j" by (simp add: queue_key_inj)
    from inj_onD [OF inj this i j] show "i = j" .
  qed
  have "filter (\<lambda>j. inv_op j = op \<and> inv_addr j = addr) (invoked ?s) =
      filter (\<lambda>j. inv_op j = op \<and> inv_addr j = addr) (started ?s)
      @ filter (\<lambda>j. inv_op j = op \<and> inv_addr j = addr) (waiting ?s)"
    using F [of "(0, op, addr)"] by (simp add: same_key_fun inv_op_def inv_addr_def)
  then show "prefix (filter (\<lambda>j. inv_op j = op \<and> inv_addr j = addr) (started ?s))
             (filter (\<lambda>j. inv_op j = op \<and> inv_addr j = addr) (invoked ?s))"
    by (rule prefixI)
  show "queue_key (n, Establish, addr) \<noteq> queue_key (m, AcceptOffer, addr')"
    by (simp add: queue_key_inj inv_op_def)
  show "\<not> list_ex (\<lambda>j. inv_op j = inv_op i \<and> inv_addr j = inv_addr i) (running s @ waiting s) \<longrightarrow>
         running (queueAsync i s) = running s @ [i]"
    by (simp add: queueAsync_def same_key_fun)
qed

lemmas sched_eval = sched_run_def idle_def queueAsync_def finish_invocation_def same_key_def queue_key_def
  inv_op_def inv_addr_def

lemma three_establish_run:
  "running (sched_run three_establish) = [(3, AcceptOffer, ''u.1''), (2, Establish, ''u.1'')]"
  "started (sched_run three_establish) =
     [(1, Establish, ''u.1''), (3, AcceptOffer, ''u.1''), (2, Establish, ''u.1'')]"
  "invoked (sched_run three_establish) =
     [(1, Establish, ''u.1''), (2, Establish, ''u.1''), (3, AcceptOffer, ''u.1''), (4, Establish, ''u.1'')]"
  by (simp_all add: three_establish_def sched_eval)

theorem handshake_serialized_per_operation_witness:
  "running (sched_run three_establish) = [(3, AcceptOffer, ''u.1''), (2, Establish, ''u.1'')]
   \<and> prefix [(1, Establish, ''u.1''), (2, Establish, ''u.1'')]
        (filter (\<lambda>j. inv_op j = Establish \<and> inv_addr j = ''u.1'') (invoked (sched_run three_establish)))
   \<and> queue_key (2, Establish, ''u.1'') \<noteq> queue_key (3, AcceptOffer, ''u.1'')"
  using handshake_serialized_per_operation [of three_establish Establish "''u.1''" 2 3 "''u.1''"]
  by (simp add: three_establish_run inv_op_def inv_addr_def)

theorem handshake_serialized_counterexample:
  "running (sched_run accept_then_establish) = [(1, AcceptOffer, ''u.1''), (2, Establish, ''u.1'')]
   \<and> inv_addr (1, AcceptOffer, ''u.1'') = inv_addr (2, Establish, ''u.1'')"
  by (simp add: accept_then_establish_def sched_eval)

end
